theory Spec2Isabelle
  imports Complex_Main
begin

section \<open>JavaScript strings and the regular expressions the sources use\<close>

text \<open>
  A JavaScript string is a sequence of UTF-16 code units; \<open>length\<close>, \<open>trim\<close>,
  \<open>split\<close> and the regular expressions of the sources (none carries the \<open>u\<close> flag)
  all work on code units. A code unit is modelled by its number.
\<close>

type_synonym jschar = nat
type_synonym jsstring = "jschar list"

definition js :: "string \<Rightarrow> jsstring" where
  "js s = map of_char s"

text \<open>The class \<open>\s\<close>, which is also what \<open>trim\<close> strips: WhiteSpace and LineTerminator.\<close>

definition is_ws :: "jschar \<Rightarrow> bool" where
  "is_ws c = (c = 9 \<or> c = 10 \<or> c = 11 \<or> c = 12 \<or> c = 13 \<or> c = 32 \<or> c = 160 \<or>
     c = 5760 \<or> (8192 \<le> c \<and> c \<le> 8202) \<or> c = 8232 \<or> c = 8233 \<or> c = 8239 \<or>
     c = 8287 \<or> c = 12288 \<or> c = 65279)"

text \<open>The class \<open>\w\<close>: \<open>[A-Za-z0-9_]\<close> (the \<open>i\<close> flag adds nothing to it without \<open>u\<close>).\<close>

definition is_word :: "jschar \<Rightarrow> bool" where
  "is_word c = ((48 \<le> c \<and> c \<le> 57) \<or> (65 \<le> c \<and> c \<le> 90) \<or> c = 95 \<or> (97 \<le> c \<and> c \<le> 122))"

text \<open>The class \<open>\d\<close>.\<close>

definition is_digit :: "jschar \<Rightarrow> bool" where
  "is_digit c = (48 \<le> c \<and> c \<le> 57)"

text \<open>
  A letter of a pattern under the \<open>i\<close> flag: the pattern letter is given in lower case and
  matches itself and its ASCII capital (no code unit beyond ASCII canonicalises to an
  ASCII letter when the \<open>u\<close> flag is absent).
\<close>

definition ci :: "jschar \<Rightarrow> jschar \<Rightarrow> bool" where
  "ci l c = (c = l \<or> c + 32 = l)"

definition trim :: "jsstring \<Rightarrow> jsstring" where
  "trim s = rev (dropWhile is_ws (rev (dropWhile is_ws s)))"

text \<open>
  Regular expressions, as far as the sources use them: a character class, sequence,
  alternative, greedy star and a numbered capture group. \<open>r+\<close> is \<open>r r*\<close> and
  \<open>r{2,}\<close> is \<open>r r r*\<close>.
\<close>

datatype rx =
    Chr "jschar \<Rightarrow> bool"
  | Seq rx rx
  | Alt rx rx
  | Star rx
  | Group nat rx

definition Plus :: "rx \<Rightarrow> rx" where
  "Plus r = Seq r (Star r)"

definition Lit :: "jschar \<Rightarrow> rx" where
  "Lit l = Chr (\<lambda>c. c = l)"

type_synonym caps = "(nat \<times> jsstring) list"

text \<open>
  The backtracking matcher of the language definition, as the list of its successes:
  \<open>rmatch r s c\<close> lists, in the order backtracking would try them, every way \<open>r\<close> matches
  a prefix of \<open>s\<close>, each as the rest of the input and the captures made so far. The first
  element is the match JavaScript reports. A greedy star tries one more iteration
  before it tries to stop, and an iteration that consumes nothing is rejected.
\<close>

fun rmatch :: "rx \<Rightarrow> jsstring \<Rightarrow> caps \<Rightarrow> (jsstring \<times> caps) list" where
  "rmatch (Chr P) s c = (case s of [] \<Rightarrow> [] | x # xs \<Rightarrow> if P x then [(xs, c)] else [])"
| "rmatch (Seq a b) s c = concat (map (\<lambda>r. rmatch b (fst r) (snd r)) (rmatch a s c))"
| "rmatch (Alt a b) s c = rmatch a s c @ rmatch b s c"
| "rmatch (Star a) s c =
     concat (map (\<lambda>r. if length (fst r) < length s then rmatch (Star a) (fst r) (snd r) else [])
                 (rmatch a s c)) @ [(s, c)]"
| "rmatch (Group n a) s c =
     map (\<lambda>r. (fst r, (n, take (length s - length (fst r)) s) # snd r)) (rmatch a s c)"

declare rmatch.simps(4) [simp del]

lemma rmatch_Star_iff:
  "m \<in> set (rmatch (Star a) s c) \<longleftrightarrow>
     m = (s, c) \<or> (\<exists>r\<in>set (rmatch a s c). length (fst r) < length s \<and>
                       m \<in> set (rmatch (Star a) (fst r) (snd r)))"
  by (subst rmatch.simps(4)) (auto split: if_splits)

text \<open>The match at exactly this position (a sticky match), if there is one.\<close>

definition match_here :: "rx \<Rightarrow> jsstring \<Rightarrow> (jsstring \<times> caps) option" where
  "match_here r s = (case rmatch r s [] of [] \<Rightarrow> None | m # _ \<Rightarrow> Some m)"

text \<open>
  \<open>RegExp.prototype.exec\<close> from the current \<open>lastIndex\<close>: the input from \<open>lastIndex\<close> on
  is \<open>s\<close>; the leftmost position with a match wins (the end of the input is tried too).
  The result is the input from the start of the match, the rest after the match and the
  captures.
\<close>

fun exec :: "rx \<Rightarrow> jsstring \<Rightarrow> (jsstring \<times> jsstring \<times> caps) option" where
  "exec r [] = (case match_here r [] of None \<Rightarrow> None | Some (s', c) \<Rightarrow> Some ([], s', c))"
| "exec r (x # xs) =
     (case match_here r (x # xs) of
        None \<Rightarrow> exec r xs
      | Some (s', c) \<Rightarrow> Some (x # xs, s', c))"

text \<open>
  \<open>String.prototype.split\<close> with a regular expression without capture groups:
  \<open>cur\<close> holds, reversed, the code units since the end of the last separator. A match
  that ends where the current piece starts (an empty match there) is skipped.
\<close>

function split_go :: "rx \<Rightarrow> jsstring \<Rightarrow> jsstring \<Rightarrow> jsstring list" where
  "split_go r cur [] = [rev cur]"
| "split_go r cur (x # xs) =
     (case match_here r (x # xs) of
        None \<Rightarrow> split_go r (x # cur) xs
      | Some (s', c) \<Rightarrow>
          if length s' < length (x # xs) then rev cur # split_go r [] s'
          else if cur = [] then split_go r [x] xs
          else rev cur # split_go r [] (x # xs))"
  by pat_completeness auto
termination
  by (relation "measures [\<lambda>(r, cur, s). length s, \<lambda>(r, cur, s). length cur]") auto

definition split_rx :: "rx \<Rightarrow> jsstring \<Rightarrow> jsstring list" where
  "split_rx r s = (if s = [] then (case match_here r [] of None \<Rightarrow> [[]] | Some m \<Rightarrow> [])
                   else split_go r [] s)"

text \<open>\<open>String.prototype.split\<close> with a one-character string as the separator.\<close>

fun split_chr :: "jschar \<Rightarrow> jsstring \<Rightarrow> jsstring list" where
  "split_chr sep [] = [[]]"
| "split_chr sep (x # xs) =
     (if x = sep then [] # split_chr sep xs
      else (case split_chr sep xs of p # ps \<Rightarrow> (x # p) # ps | [] \<Rightarrow> [[x]]))"

text \<open>
  \<open>String.prototype.replace\<close> with a global regular expression and a replacement
  without \<open>$\<close> patterns. After an empty match the search moves on by one code unit.
\<close>

function replace_all :: "rx \<Rightarrow> jsstring \<Rightarrow> jsstring \<Rightarrow> jsstring" where
  "replace_all r rep [] = (case match_here r [] of None \<Rightarrow> [] | Some m \<Rightarrow> rep)"
| "replace_all r rep (x # xs) =
     (case match_here r (x # xs) of
        None \<Rightarrow> x # replace_all r rep xs
      | Some (s', c) \<Rightarrow>
          if length s' < length (x # xs) then rep @ replace_all r rep s'
          else rep @ x # replace_all r rep xs)"
  by pat_completeness auto
termination
  by (relation "measure (\<lambda>(r, rep, s). length s)") auto

text \<open>\<open>String.prototype.includes\<close>.\<close>

fun str_includes :: "jsstring \<Rightarrow> jsstring \<Rightarrow> bool" where
  "str_includes [] t = (t = [])"
| "str_includes (x # xs) t = (take (length t) (x # xs) = t \<or> str_includes xs t)"

text \<open>\<open>RegExp.prototype.test\<close> for a regular expression without the global flag.\<close>

definition rx_test :: "rx \<Rightarrow> jsstring \<Rightarrow> bool" where
  "rx_test r s = (exec r s \<noteq> None)"

text \<open>\<open>Array.prototype.join\<close> on strings.\<close>

fun join :: "jsstring \<Rightarrow> jsstring list \<Rightarrow> jsstring" where
  "join sep [] = []"
| "join sep [x] = x"
| "join sep (x # y # ys) = x @ sep @ join sep (y # ys)"

section \<open>StructuredDataExtractor\<close>

record StructuredField =
  key :: jsstring
  vals :: "jsstring list"
  rawText :: jsstring

text \<open>\<open>/(\w+(?:\s+\w+)*)\s*:\s*([^;\n]+)/gi\<close>\<close>

definition colonPattern :: rx where
  "colonPattern =
     Seq (Group 1 (Seq (Plus (Chr is_word)) (Star (Seq (Plus (Chr is_ws)) (Plus (Chr is_word))))))
      (Seq (Star (Chr is_ws))
        (Seq (Lit 58)
          (Seq (Star (Chr is_ws))
            (Group 2 (Plus (Chr (\<lambda>c. c \<noteq> 59 \<and> c \<noteq> 10)))))))"

text \<open>\<open>/[,;|]/\<close> and \<open>/\s+(?:and|or)\s+/i\<close>\<close>

definition delimPattern :: rx where
  "delimPattern = Chr (\<lambda>c. c = 44 \<or> c = 59 \<or> c = 124)"

definition conjPattern :: rx where
  "conjPattern =
     Seq (Plus (Chr is_ws))
      (Seq (Alt (Seq (Chr (ci 97)) (Seq (Chr (ci 110)) (Chr (ci 100))))
                (Seq (Chr (ci 111)) (Chr (ci 114))))
        (Plus (Chr is_ws)))"

definition splitValues :: "jsstring \<Rightarrow> jsstring list" where
  "splitValues text =
     (let values = map trim (split_rx delimPattern text);
          values = (if length values = 1 then map trim (split_rx conjPattern text) else values)
      in filter (\<lambda>v. length v > 0) values)"

text \<open>The value of a capture group of a successful match.\<close>

definition group :: "caps \<Rightarrow> nat \<Rightarrow> jsstring" where
  "group c n = (case map_of c n of None \<Rightarrow> [] | Some g \<Rightarrow> g)"

text \<open>A match never gives back more input than it was given.\<close>

lemma rmatch_length: "m \<in> set (rmatch r s c) \<Longrightarrow> length (fst m) \<le> length s"
proof (induction r s c arbitrary: m rule: rmatch.induct)
  case (1 P s c)
  then show ?case by (auto split: list.splits if_splits)
next
  case (2 a b s c)
  from "2.prems" obtain m1 where m1: "m1 \<in> set (rmatch a s c)"
    and m: "m \<in> set (rmatch b (fst m1) (snd m1))" by auto
  from "2.IH"(1)[OF m1] "2.IH"(2)[OF m1 m] show ?case by simp
next
  case (3 a b s c)
  then show ?case by (cases m) auto
next
  case (4 a s c)
  from "4.prems" show ?case
    unfolding rmatch_Star_iff[of m a s c]
  proof (elim disjE bexE conjE)
    assume "m = (s, c)"
    then show ?thesis by simp
  next
    fix r assume r: "r \<in> set (rmatch a s c)" and lt: "length (fst r) < length s"
      and m: "m \<in> set (rmatch (Star a) (fst r) (snd r))"
    from "4.IH"(2)[OF r lt m] lt show ?thesis by simp
  qed
next
  case (5 n a s c)
  then show ?case by auto
qed

text \<open>A pattern that cannot match the empty string: every match consumes input.\<close>

fun consumes :: "rx \<Rightarrow> bool" where
  "consumes (Chr P) = True"
| "consumes (Seq a b) = (consumes a \<or> consumes b)"
| "consumes (Alt a b) = (consumes a \<and> consumes b)"
| "consumes (Star a) = False"
| "consumes (Group n a) = consumes a"

lemma rmatch_consumes:
  "consumes r \<Longrightarrow> m \<in> set (rmatch r s c) \<Longrightarrow> length (fst m) < length s"
proof (induction r s c arbitrary: m rule: rmatch.induct)
  case (1 P s c)
  then show ?case by (auto split: list.splits if_splits)
next
  case (2 a b s c)
  from "2.prems" obtain m1 where m1: "m1 \<in> set (rmatch a s c)"
    and m: "m \<in> set (rmatch b (fst m1) (snd m1))" by auto
  have le1: "length (fst m1) \<le> length s" using rmatch_length[OF m1] .
  have le2: "length (fst m) \<le> length (fst m1)" using rmatch_length[OF m] .
  from "2.prems"(1) have "consumes a \<or> consumes b" by simp
  then show ?case
  proof
    assume "consumes a"
    from "2.IH"(1)[OF this m1] le2 show ?thesis by simp
  next
    assume "consumes b"
    from "2.IH"(2)[OF m1 this m] le1 show ?thesis by simp
  qed
next
  case (3 a b s c)
  then show ?case by (cases m) auto
next
  case (4 a s c)
  then show ?case by simp
next
  case (5 n a s c)
  then show ?case by auto
qed

lemma match_here_consumes:
  "consumes r \<Longrightarrow> match_here r s = Some (s', c) \<Longrightarrow> length s' < length s"
  using rmatch_consumes[of r "(s', c)" s "[]"]
  by (auto simp: match_here_def split: list.splits)

lemma exec_length:
  "exec r s = Some (m, s', c) \<Longrightarrow> length m \<le> length s \<and> match_here r m = Some (s', c)"
  by (induction r s rule: exec.induct) (auto split: option.splits)

lemma exec_consumes:
  assumes "consumes r" and "exec r s = Some (m, s', c)"
  shows "length s' < length s"
  using exec_length[OF assms(2)] match_here_consumes[OF assms(1), of m s' c] by simp

lemma consumes_colonPattern: "consumes colonPattern"
  by (simp add: colonPattern_def Plus_def Lit_def)

text \<open>
  The \<open>while ((match = colonPattern.exec(text)) !== null)\<close> loop of \<open>extractFields\<close>;
  \<open>s\<close> is the text from \<open>lastIndex\<close> on.
\<close>

function extractFields_loop :: "jsstring \<Rightarrow> StructuredField list" where
  "extractFields_loop s =
     (case exec colonPattern s of
        None \<Rightarrow> []
      | Some (m, s', c) \<Rightarrow>
          (let k = trim (group c 1);
               valuesText = trim (group c 2);
               values = splitValues valuesText
           in (if length values > 0
               then [\<lparr>key = k, vals = values, rawText = take (length m - length s') m\<rparr>]
               else []) @ extractFields_loop s'))"
  by pat_completeness auto
termination
  by (relation "measure length") (auto dest: exec_consumes[OF consumes_colonPattern])

definition extractFields :: "jsstring \<Rightarrow> StructuredField list" where
  "extractFields text = extractFields_loop text"

text \<open>
  \<open>mergeFields\<close>: the \<open>Map\<close> is an association list in insertion order, with each key
  once.
\<close>

type_synonym merged = "(jsstring \<times> jsstring list) list"

definition add_unique :: "jsstring list \<Rightarrow> jsstring list \<Rightarrow> jsstring list" where
  "add_unique existing values = foldl (\<lambda>e v. if v \<in> set e then e else e @ [v]) existing values"

definition merge_field :: "merged \<Rightarrow> StructuredField \<Rightarrow> merged" where
  "merge_field m f =
     (case map_of m (key f) of
        Some existing \<Rightarrow> map (\<lambda>(k, vs). if k = key f then (k, add_unique vs (vals f)) else (k, vs)) m
      | None \<Rightarrow> m @ [(key f, vals f)])"

definition mergeFields :: "StructuredField list \<Rightarrow> merged" where
  "mergeFields flds = foldl merge_field [] flds"

text \<open>
  \<open>toFlatStructure\<close>. A row is a JavaScript object filled by \<open>row[key] = ...\<close>; it is
  modelled as the list of its own properties in the order the object enumerates them:
  the keys that are array indices (the decimal numerals of 0 to \<open>2 ^ 32 - 2\<close>, without
  leading zeros) first, in ascending numeric order, then the other keys in the order
  they were set. Setting a key again replaces its value in place, and the assignment
  \<open>row['__proto__'] = v\<close> of a string \<open>v\<close> sets no property. \<open>values[i] || ''\<close> is the empty
  string when \<open>i\<close> is out of range.
\<close>

definition cell_at :: "jsstring list \<Rightarrow> nat \<Rightarrow> jsstring" where
  "cell_at values i = (if i < length values then values ! i else [])"

definition max_list :: "nat list \<Rightarrow> nat" where
  "max_list ns = foldl max 0 ns"

definition index_value :: "jsstring \<Rightarrow> nat" where
  "index_value k = foldl (\<lambda>n c. 10 * n + (c - 48)) 0 k"

definition is_array_index :: "jsstring \<Rightarrow> bool" where
  "is_array_index k =
     (length k > 0 \<and> list_all is_digit k \<and> (if hd k = 48 then length k = 1 else True)
      \<and> index_value k \<le> 4294967294)"

definition index_before :: "jsstring \<Rightarrow> jsstring \<times> jsstring \<Rightarrow> bool" where
  "index_before k p = (is_array_index (fst p) \<and> index_value (fst p) < index_value k)"

definition row_set ::
  "(jsstring \<times> jsstring) list \<Rightarrow> jsstring \<Rightarrow> jsstring \<Rightarrow> (jsstring \<times> jsstring) list" where
  "row_set row k v =
     (if k = js ''__proto__'' then row
      else if k \<in> set (map fst row)
      then map (\<lambda>(k', v'). if k' = k then (k', v) else (k', v')) row
      else if is_array_index k
      then takeWhile (index_before k) row @ [(k, v)] @ dropWhile (index_before k) row
      else row @ [(k, v)])"

definition toFlatStructure :: "StructuredField list \<Rightarrow> (jsstring \<times> jsstring) list list" where
  "toFlatStructure flds =
     (if length flds = 0 then []
      else (let m = mergeFields flds;
                maxValues = max_list (map (\<lambda>(k, vs). length vs) m)
            in map (\<lambda>i. foldl (\<lambda>row (k, vs). row_set row k (cell_at vs i)) [] m)
                 [0..<maxValues]))"

section \<open>Helpers\<close>

text \<open>
  \<open>normalizeText\<close>: \<open>text.replace(/\r\n/g, '\n').replace(/\r/g, '\n').replace(/\t/g, ' ')
  .replace(/\s+/g, ' ').trim()\<close>.
\<close>

definition normalizeText :: "jsstring \<Rightarrow> jsstring" where
  "normalizeText text =
     trim (replace_all (Plus (Chr is_ws)) [32]
       (replace_all (Lit 9) [32]
         (replace_all (Lit 13) [10]
           (replace_all (Seq (Lit 13) (Lit 10)) [10] text))))"

text \<open>\<open>splitIntoParagraphs\<close>: split on \<open>/\n\n+/\<close>, trim each piece, drop the empty ones.\<close>

definition paragraphPattern :: rx where
  "paragraphPattern = Seq (Lit 10) (Plus (Lit 10))"

definition splitIntoParagraphs :: "jsstring \<Rightarrow> jsstring list" where
  "splitIntoParagraphs text =
     filter (\<lambda>p. length p > 0) (map trim (split_rx paragraphPattern text))"

text \<open>
  A JavaScript Number is an IEEE 754 double. The finite Numbers are modelled by the real
  numbers they denote: a Number is a multiple \<open>m * 2 ^ e\<close> of a power of two with
  \<open>\<bar>m\<bar> < 2 ^ 53\<close> and \<open>- 1074 \<le> e\<close>. An arithmetic operation gives the exact result
  rounded to the nearest Number, a tie going to the one with the even multiple, and a
  decimal literal denotes the Number nearest to it. \<open>binade x\<close> is the exponent of the
  power of two at or below \<open>\<bar>x\<bar>\<close>, never under \<open>- 1022\<close>, where the subnormal Numbers begin;
  the Numbers of a binade are \<open>2 powi (binade x - 52)\<close> apart. NaN and the infinities,
  which a result of magnitude \<open>2 ^ 1024\<close> or more would give, are not represented.
\<close>

definition binade :: "real \<Rightarrow> int" where
  "binade x = Max {e \<in> {-1022..1023}. e = -1022 \<or> 2 powi e \<le> \<bar>x\<bar>}"

definition round_even :: "real \<Rightarrow> int" where
  "round_even y =
     (let f = \<lfloor>y\<rfloor>
      in if y - of_int f < 1 / 2 then f
         else if y - of_int f > 1 / 2 then f + 1
         else if even f then f else f + 1)"

definition round_double :: "real \<Rightarrow> real" where
  "round_double x = (let u = 2 powi (binade x - 52) in of_int (round_even (x / u)) * u)"

definition number :: "real \<Rightarrow> real" where
  "number x = round_double x"

definition num_add :: "real \<Rightarrow> real \<Rightarrow> real" where
  "num_add x y = round_double (x + y)"

definition num_sub :: "real \<Rightarrow> real \<Rightarrow> real" where
  "num_sub x y = round_double (x - y)"

definition num_mul :: "real \<Rightarrow> real \<Rightarrow> real" where
  "num_mul x y = round_double (x * y)"

definition num_div :: "real \<Rightarrow> real \<Rightarrow> real" where
  "num_div x y = round_double (x / y)"

text \<open>
  \<open>Math.round\<close> gives the nearest integer, a tie going up; the result is a Number as it
  stands. \<open>Math.min\<close> and \<open>Math.max\<close> are exact as well.
\<close>

definition math_round :: "real \<Rightarrow> real" where
  "math_round x = of_int \<lfloor>x + 1 / 2\<rfloor>"

definition calculateConfidence :: "jsstring \<Rightarrow> real \<Rightarrow> real" where
  "calculateConfidence text classificationScore =
     (let confidence = classificationScore;
          confidence = (if length text > 100 then min 1.0 (num_add confidence (number 0.05))
                        else confidence);
          confidence = (if length text < 20 then max 0.0 (num_sub confidence (number 0.1))
                        else confidence)
      in num_div (math_round (num_mul confidence 100)) 100)"

section \<open>PdfParser: the table heuristic\<close>

record TableData =
  headers :: "jsstring list option"
  rows :: "jsstring list list"

text \<open>\<open>/\s{2,}|\t+/\<close>\<close>

definition tableSepPattern :: rx where
  "tableSepPattern = Alt (Seq (Chr is_ws) (Plus (Chr is_ws))) (Plus (Lit 9))"

definition splitTableRow :: "jsstring \<Rightarrow> jsstring list" where
  "splitTableRow line =
     filter (\<lambda>cell. length cell > 0) (map trim (split_rx tableSepPattern line))"

text \<open>
  \<open>toLowerCase\<close>, on the ASCII capitals. The sources only look for the ASCII words
  \<open>name\<close>, \<open>type\<close>, \<open>description\<close> and \<open>value\<close> in the result; a code unit beyond ASCII
  never lowers to one of their letters in a place where it could take part in such a
  word, so it is left as it is.
\<close>

definition toLowerCase :: "jsstring \<Rightarrow> jsstring" where
  "toLowerCase s = map (\<lambda>c. if 65 \<le> c \<and> c \<le> 90 then c + 32 else c) s"

definition detectHeaders :: "jsstring list list \<Rightarrow> jsstring list option" where
  "detectHeaders table =
     (case table of
        [] \<Rightarrow> None
      | firstRow # _ \<Rightarrow>
          (let looksLikeHeader =
                 list_ex (\<lambda>cell.
                     str_includes (toLowerCase cell) (js ''name'') \<or>
                     str_includes (toLowerCase cell) (js ''type'') \<or>
                     str_includes (toLowerCase cell) (js ''description'') \<or>
                     str_includes (toLowerCase cell) (js ''value'') \<or>
                     \<not> rx_test (Chr is_digit) cell) firstRow
           in if looksLikeHeader then Some firstRow else None))"

text \<open>
  The table pushed when a block ends:
  \<open>headers = detectHeaders(currentTable); rows = headers ? currentTable.slice(1) : currentTable\<close>.
\<close>

definition closeTable :: "jsstring list list \<Rightarrow> TableData" where
  "closeTable currentTable =
     (let hs = detectHeaders currentTable;
          rs = (if hs \<noteq> None then drop 1 currentTable else currentTable)
      in \<lparr>headers = hs, rows = rs\<rparr>)"

text \<open>
  The \<open>for\<close> loop of \<open>extractTables\<close> over the lines, with its three variables
  \<open>tables\<close>, \<open>currentTable\<close> and \<open>inTable\<close>.
\<close>

fun extractTables_loop ::
  "jsstring list \<Rightarrow> TableData list \<Rightarrow> jsstring list list \<Rightarrow> bool \<Rightarrow>
   TableData list \<times> jsstring list list \<times> bool" where
  "extractTables_loop [] tables currentTable inTable = (tables, currentTable, inTable)"
| "extractTables_loop (l # ls) tables currentTable inTable =
     (let line = trim l;
          cells = splitTableRow line
      in if length cells \<ge> 2
         then extractTables_loop ls tables ((if \<not> inTable then [] else currentTable) @ [cells]) True
         else extractTables_loop ls
                (if inTable \<and> length currentTable > 1 then tables @ [closeTable currentTable]
                 else tables) [] False)"

definition extractTables_lines :: "jsstring list \<Rightarrow> TableData list" where
  "extractTables_lines ls =
     (case extractTables_loop ls [] [] False of
        (tables, currentTable, inTable) \<Rightarrow>
          if inTable \<and> length currentTable > 1 then tables @ [closeTable currentTable]
          else tables)"

definition extractTables :: "jsstring \<Rightarrow> TableData list" where
  "extractTables text = extractTables_lines (split_chr 10 text)"

section \<open>ZeroShotClassifier and ContentAnalyzer\<close>

datatype error =
    ClassifierInitError
  | ClassifierNotInitialized
  | InferenceError
  | ZodError
  | ThresholdError
  | EmptyLabelsError

text \<open>
  The scorer is the pipeline of the transformers library: called with a text and the
  candidate labels, it fails or gives a result; the result is read as the pairs
  \<open>(labels[i], scores[i])\<close> when \<open>result.labels\<close> is an array (\<open>None\<close> when it is not).
\<close>

type_synonym scorer = "jsstring \<Rightarrow> jsstring list \<Rightarrow> error + (jsstring \<times> real) list option"

text \<open>
  \<open>classify\<close>. \<open>init\<close> is what \<open>await this.initialize()\<close> leaves: a failure to load the
  model, or the value of \<open>this.classifier\<close> (\<open>None\<close> for a null pipeline).
\<close>

definition classify ::
  "error + scorer option \<Rightarrow> jsstring \<Rightarrow> jsstring list \<Rightarrow> error + (jsstring \<times> real) list" where
  "classify init text candidateLabels =
     (case init of
        Inl e \<Rightarrow> Inl e
      | Inr None \<Rightarrow> Inl ClassifierNotInitialized
      | Inr (Some classifier) \<Rightarrow>
          if length (trim text) = 0 then Inr (map (\<lambda>label. (label, 0)) candidateLabels)
          else (case classifier text candidateLabels of
                  Inl e \<Rightarrow> Inr (map (\<lambda>label. (label, 0)) candidateLabels)
                | Inr None \<Rightarrow> Inr []
                | Inr (Some classifications) \<Rightarrow> Inr classifications))"

record Position =
  page :: "real option"
  paragraph' :: "real option"

record ExtractedContent =
  ident :: jsstring
  ctype :: jsstring
  content :: jsstring
  confidence :: real
  position :: "Position option"
  tableData :: "TableData option"

record ContentAnalyzer =
  a_confidenceThreshold :: real
  a_classificationLabels :: "jsstring list"

text \<open>
  The loop of \<open>analyzeText\<close> over the paragraphs from index \<open>i\<close> on. \<open>generateId\<close> draws
  random identifiers: \<open>ids k\<close> is the \<open>k\<close>-th identifier drawn. An exception of
  \<open>classify\<close> leaves the loop.
\<close>

fun analyzeText_loop ::
  "error + scorer option \<Rightarrow> ContentAnalyzer \<Rightarrow> (nat \<Rightarrow> jsstring) \<Rightarrow> real option \<Rightarrow>
   jsstring list \<Rightarrow> nat \<Rightarrow> nat \<Rightarrow> error + ExtractedContent list" where
  "analyzeText_loop init an ids pg [] i k = Inr []"
| "analyzeText_loop init an ids pg (p # ps) i k =
     (if length p < 10 then analyzeText_loop init an ids pg ps (i + 1) k
      else (case classify init p (a_classificationLabels an) of
              Inl e \<Rightarrow> Inl e
            | Inr [] \<Rightarrow> analyzeText_loop init an ids pg ps (i + 1) k
            | Inr (topClassification # _) \<Rightarrow>
                (let c = calculateConfidence p (snd topClassification)
                 in if c \<ge> a_confidenceThreshold an
                    then (case analyzeText_loop init an ids pg ps (i + 1) (k + 1) of
                            Inl e \<Rightarrow> Inl e
                          | Inr rest \<Rightarrow>
                              Inr (\<lparr>ident = ids k, ctype = fst topClassification, content = p,
                                    confidence = c,
                                    position = Some \<lparr>page = pg, paragraph' = Some (real i)\<rparr>,
                                    tableData = None\<rparr> # rest))
                    else analyzeText_loop init an ids pg ps (i + 1) k)))"

definition analyzeText ::
  "error + scorer option \<Rightarrow> ContentAnalyzer \<Rightarrow> (nat \<Rightarrow> jsstring) \<Rightarrow> real option \<Rightarrow>
   jsstring \<Rightarrow> error + ExtractedContent list" where
  "analyzeText init an ids pg text =
     analyzeText_loop init an ids pg (splitIntoParagraphs (normalizeText text)) 0 0"

definition setConfidenceThreshold :: "ContentAnalyzer \<Rightarrow> real \<Rightarrow> error + ContentAnalyzer" where
  "setConfidenceThreshold an threshold =
     (if threshold < 0 \<or> threshold > 1 then Inl ThresholdError
      else Inr (an\<lparr>a_confidenceThreshold := threshold\<rparr>))"

definition setClassificationLabels :: "ContentAnalyzer \<Rightarrow> jsstring list \<Rightarrow> error + ContentAnalyzer" where
  "setClassificationLabels an labels =
     (if length labels = 0 then Inl EmptyLabelsError
      else Inr (an\<lparr>a_classificationLabels := labels\<rparr>))"

section \<open>Configuration and DocumentExtractor\<close>

record ExtractorConfig =
  classificationLabels :: "jsstring list"
  confidenceThreshold :: real
  enableTableExtraction :: bool
  modelName :: jsstring

text \<open>A \<open>Partial<ExtractorConfigType>\<close>: each property may be absent.\<close>

record PartialConfig =
  opt_classificationLabels :: "jsstring list option"
  opt_confidenceThreshold :: "real option"
  opt_enableTableExtraction :: "bool option"
  opt_modelName :: "jsstring option"

text \<open>
  \<open>ExtractorConfigSchema.parse\<close>: the labels are \<open>z.array(z.string())\<close> with a default,
  the threshold is \<open>z.number().min(0).max(1).default(0.5)\<close>, the two others have a
  default and no constraint.
\<close>

definition ExtractorConfigSchema_parse :: "PartialConfig \<Rightarrow> error + ExtractorConfig" where
  "ExtractorConfigSchema_parse c =
     (let labels = (case opt_classificationLabels c of
                      None \<Rightarrow> [js ''business_rule'', js ''formula'', js ''condition'',
                                js ''definition'', js ''table'', js ''text'']
                    | Some ls \<Rightarrow> ls);
          threshold = (case opt_confidenceThreshold c of None \<Rightarrow> 0.5 | Some t \<Rightarrow> t);
          tables = (case opt_enableTableExtraction c of None \<Rightarrow> True | Some b \<Rightarrow> b);
          model = (case opt_modelName c of
                     None \<Rightarrow> js ''Xenova/distilbert-base-uncased-mnli'' | Some m \<Rightarrow> m)
      in if threshold < 0 \<or> threshold > 1 then Inl ZodError
         else Inr \<lparr>classificationLabels = labels, confidenceThreshold = threshold,
                   enableTableExtraction = tables, modelName = model\<rparr>)"

record DocumentExtractor =
  config :: ExtractorConfig
  analyzer :: ContentAnalyzer

text \<open>
  The constructor: the parsed configuration, and a \<open>ContentAnalyzer\<close> built from its
  threshold and labels (the constructor of \<open>ContentAnalyzer\<close> stores both as given).
\<close>

definition DocumentExtractor_new :: "PartialConfig \<Rightarrow> error + DocumentExtractor" where
  "DocumentExtractor_new c =
     (case ExtractorConfigSchema_parse c of
        Inl e \<Rightarrow> Inl e
      | Inr cfg \<Rightarrow>
          Inr \<lparr>config = cfg,
               analyzer = \<lparr>a_confidenceThreshold = confidenceThreshold cfg,
                           a_classificationLabels = classificationLabels cfg\<rparr>\<rparr>)"

text \<open>\<open>{...this.config, ...config}\<close>\<close>

definition spread :: "ExtractorConfig \<Rightarrow> PartialConfig \<Rightarrow> PartialConfig" where
  "spread cfg c =
     \<lparr>opt_classificationLabels =
        (case opt_classificationLabels c of None \<Rightarrow> Some (classificationLabels cfg) | Some v \<Rightarrow> Some v),
      opt_confidenceThreshold =
        (case opt_confidenceThreshold c of None \<Rightarrow> Some (confidenceThreshold cfg) | Some v \<Rightarrow> Some v),
      opt_enableTableExtraction =
        (case opt_enableTableExtraction c of None \<Rightarrow> Some (enableTableExtraction cfg) | Some v \<Rightarrow> Some v),
      opt_modelName =
        (case opt_modelName c of None \<Rightarrow> Some (modelName cfg) | Some v \<Rightarrow> Some v)\<rparr>"

text \<open>
  \<open>updateConfig\<close> mutates the extractor: the result is the exception thrown, if any, and
  the extractor as the call leaves it.
\<close>

definition updateConfig :: "DocumentExtractor \<Rightarrow> PartialConfig \<Rightarrow> error option \<times> DocumentExtractor" where
  "updateConfig d c =
     (case ExtractorConfigSchema_parse (spread (config d) c) of
        Inl e \<Rightarrow> (Some e, d)
      | Inr cfg \<Rightarrow>
          (let d1 = d\<lparr>config := cfg\<rparr>;
               r1 = (case opt_confidenceThreshold c of
                       None \<Rightarrow> Inr (analyzer d1)
                     | Some t \<Rightarrow> setConfidenceThreshold (analyzer d1) t)
           in case r1 of
                Inl e \<Rightarrow> (Some e, d1)
              | Inr a1 \<Rightarrow>
                  (let d2 = d1\<lparr>analyzer := a1\<rparr>
                   in case opt_classificationLabels c of
                        None \<Rightarrow> (None, d2)
                      | Some ls \<Rightarrow>
                          (case setClassificationLabels a1 ls of
                             Inl e \<Rightarrow> (Some e, d2)
                           | Inr a2 \<Rightarrow> (None, d2\<lparr>analyzer := a2\<rparr>)))))"

section \<open>CsvExporter\<close>

record Metadata =
  fileName :: jsstring
  fileType :: jsstring
  extractedAt :: jsstring
  totalPages :: "real option"
  totalParagraphs :: "real option"

record Summary =
  totalItems :: real
  byType :: "(jsstring \<times> real) list"

record ExtractionResult =
  metadata :: Metadata
  contents :: "ExtractedContent list"
  summary :: "Summary option"

record ExportOptions =
  outputPath :: jsstring
  includeMetadata :: bool
  prettyPrint :: bool

definition escapeCsvRow :: "jsstring list \<Rightarrow> jsstring" where
  "escapeCsvRow row =
     join [44]
       (map (\<lambda>cell.
              if str_includes cell [44] \<or> str_includes cell [34] \<or> str_includes cell [10]
              then [34] @ replace_all (Lit 34) [34, 34] cell @ [34]
              else cell) row)"

definition csvHeaders :: "jsstring list" where
  "csvHeaders = [js ''ID'', js ''Type'', js ''Content'', js ''Confidence'', js ''Page'',
                 js ''Paragraph'', js ''Has Table Data'']"

text \<open>
  The row of one content unit. \<open>numstr\<close> is \<open>Number.prototype.toString\<close>;
  \<open>content.position?.page?.toString() ?? ''\<close> is the empty string when the position or
  the page is absent.
\<close>

definition csvRow :: "(real \<Rightarrow> jsstring) \<Rightarrow> ExtractedContent \<Rightarrow> jsstring list" where
  "csvRow numstr c =
     [ident c,
      ctype c,
      replace_all (Lit 10) [32] (content c),
      numstr (confidence c),
      (case position c of None \<Rightarrow> [] | Some p \<Rightarrow> (case page p of None \<Rightarrow> [] | Some n \<Rightarrow> numstr n)),
      (case position c of None \<Rightarrow> [] | Some p \<Rightarrow> (case paragraph' p of None \<Rightarrow> [] | Some n \<Rightarrow> numstr n)),
      (if tableData c \<noteq> None then js ''Yes'' else js ''No'')]"

text \<open>
  The comment lines appended when \<open>options.includeMetadata\<close> is set. \<open>extractedAt\<close> holds
  the date as \<open>toISOString\<close> prints it; \<open>byType\<close> lists the entries in the order of
  \<open>Object.entries\<close>.
\<close>

definition csvMetadataRows :: "(real \<Rightarrow> jsstring) \<Rightarrow> ExtractionResult \<Rightarrow> jsstring list" where
  "csvMetadataRows numstr result =
     [[],
      js ''# Metadata'',
      js ''# File Name: '' @ fileName (metadata result),
      js ''# File Type: '' @ fileType (metadata result),
      js ''# Extracted At: '' @ extractedAt (metadata result),
      js ''# Total Pages: '' @ (case totalPages (metadata result) of None \<Rightarrow> js ''N/A'' | Some n \<Rightarrow> numstr n),
      js ''# Total Paragraphs: '' @
        (case totalParagraphs (metadata result) of None \<Rightarrow> js ''N/A'' | Some n \<Rightarrow> numstr n)]
     @ (case summary result of
          None \<Rightarrow> []
        | Some s \<Rightarrow>
            [[], js ''# Summary'', js ''# Total Items: '' @ numstr (totalItems s), js ''# By Type:'']
            @ map (\<lambda>(ty, count). js ''#   '' @ ty @ js '': '' @ numstr count) (byType s))"

definition generateCsv_rows ::
  "(real \<Rightarrow> jsstring) \<Rightarrow> ExtractionResult \<Rightarrow> ExportOptions \<Rightarrow> jsstring list" where
  "generateCsv_rows numstr result options =
     [escapeCsvRow csvHeaders]
     @ map (\<lambda>c. escapeCsvRow (csvRow numstr c)) (contents result)
     @ (if includeMetadata options then csvMetadataRows numstr result else [])"

definition generateCsv :: "(real \<Rightarrow> jsstring) \<Rightarrow> ExtractionResult \<Rightarrow> ExportOptions \<Rightarrow> jsstring" where
  "generateCsv numstr result options = join [10] (generateCsv_rows numstr result options)"

section \<open>Facts about the matcher and the string operations\<close>

lemma rmatch_Star_nonempty: "rmatch (Star a) s c \<noteq> []"
  by (subst rmatch.simps(4)) simp

lemma match_here_Chr:
  "match_here (Chr P) s = (case s of [] \<Rightarrow> None | x # xs \<Rightarrow> if P x then Some (xs, []) else None)"
  by (simp add: match_here_def split: list.splits)

text \<open>The match that backtracking finds first.\<close>

definition first :: "rx \<Rightarrow> jsstring \<Rightarrow> caps \<Rightarrow> (jsstring \<times> caps) option" where
  "first r s c = (case rmatch r s c of [] \<Rightarrow> None | m # _ \<Rightarrow> Some m)"

lemma match_here_first: "match_here r s = first r s []"
  by (simp add: match_here_def first_def)

lemma first_Chr:
  "first (Chr P) s c = (case s of [] \<Rightarrow> None | x # xs \<Rightarrow> if P x then Some (xs, c) else None)"
  by (simp add: first_def split: list.splits)

lemma first_Seq:
  "first a s c = Some m1 \<Longrightarrow> first b (fst m1) (snd m1) = Some m2 \<Longrightarrow> first (Seq a b) s c = Some m2"
  by (auto simp: first_def split: list.splits)

lemma first_Seq_None: "first a s c = None \<Longrightarrow> first (Seq a b) s c = None"
  by (auto simp: first_def split: list.splits)

lemma first_Group:
  "first a s c = Some m \<Longrightarrow>
   first (Group n a) s c = Some (fst m, (n, take (length s - length (fst m)) s) # snd m)"
  by (auto simp: first_def split: list.splits)

lemma first_Star_stop: "first a s c = None \<Longrightarrow> first (Star a) s c = Some (s, c)"
  by (subst first_def, subst rmatch.simps(4)) (auto simp: first_def split: list.splits)

lemma first_Star_step:
  "first a s c = Some m1 \<Longrightarrow> length (fst m1) < length s \<Longrightarrow>
   first (Star a) (fst m1) (snd m1) = Some m2 \<Longrightarrow> first (Star a) s c = Some m2"
  by (subst first_def, subst rmatch.simps(4)) (auto simp: first_def split: list.splits)

lemma first_Star_Chr: "first (Star (Chr P)) s c = Some (dropWhile P s, c)"
proof (induction s)
  case Nil
  have "first (Chr P) [] c = None" by (simp add: first_Chr)
  from first_Star_stop[OF this] show ?case by simp
next
  case (Cons x xs)
  show ?case
  proof (cases "P x")
    case True
    have "first (Chr P) (x # xs) c = Some (xs, c)" using True by (simp add: first_Chr)
    from first_Star_step[OF this] Cons True show ?thesis by simp
  next
    case False
    have "first (Chr P) (x # xs) c = None" using False by (simp add: first_Chr)
    from first_Star_stop[OF this] False show ?thesis by simp
  qed
qed

lemma first_Plus_Chr:
  "first (Plus (Chr P)) s c =
     (case s of [] \<Rightarrow> None | x # xs \<Rightarrow> if P x then Some (dropWhile P xs, c) else None)"
proof (cases s)
  case Nil
  then show ?thesis by (simp add: Plus_def first_Seq_None first_Chr)
next
  case (Cons x xs)
  show ?thesis
  proof (cases "P x")
    case True
    have 1: "first (Chr P) (x # xs) c = Some (xs, c)" using True by (simp add: first_Chr)
    have "first (Seq (Chr P) (Star (Chr P))) (x # xs) c = Some (dropWhile P xs, c)"
      by (rule first_Seq[OF 1]) (simp add: first_Star_Chr)
    then show ?thesis using Cons True by (simp add: Plus_def)
  next
    case False
    then show ?thesis using Cons by (simp add: Plus_def first_Seq_None first_Chr)
  qed
qed

text \<open>Replacing every occurrence of one code unit.\<close>

lemma replace_all_Lit:
  "replace_all (Lit a) rep s = concat (map (\<lambda>x. if x = a then rep else [x]) s)"
  by (induction s) (simp_all add: Lit_def match_here_Chr)

lemma str_includes_iff: "str_includes s t \<longleftrightarrow> (\<exists>p q. s = p @ t @ q)"
proof (induction s)
  case Nil
  show ?case by auto
next
  case (Cons x xs)
  have pre: "take (length t) (x # xs) = t \<longleftrightarrow> (\<exists>q. x # xs = t @ q)"
    by (metis append_eq_conv_conj append_take_drop_id)
  show ?case
  proof
    assume "str_includes (x # xs) t"
    then consider "take (length t) (x # xs) = t" | "str_includes xs t" by auto
    then show "\<exists>p q. x # xs = p @ t @ q"
    proof cases
      case 1
      then obtain q where "x # xs = t @ q" using pre by blast
      then have "x # xs = [] @ t @ q" by simp
      then show ?thesis by blast
    next
      case 2
      then obtain p q where "xs = p @ t @ q" using Cons.IH by blast
      then have "x # xs = (x # p) @ t @ q" by simp
      then show ?thesis by blast
    qed
  next
    assume "\<exists>p q. x # xs = p @ t @ q"
    then obtain p q where pq: "x # xs = p @ t @ q" by blast
    show "str_includes (x # xs) t"
    proof (cases p)
      case Nil
      then have "take (length t) (x # xs) = t" using pq pre by auto
      then show ?thesis by simp
    next
      case (Cons y ys)
      then have "xs = ys @ t @ q" using pq by simp
      then have "str_includes xs t" using Cons.IH by blast
      then show ?thesis by simp
    qed
  qed
qed

lemma str_includes_single: "str_includes s [x] \<longleftrightarrow> x \<in> set s"
  by (induction s) auto

lemma rx_test_Chr: "rx_test (Chr P) s \<longleftrightarrow> (\<exists>c\<in>set s. P c)"
  unfolding rx_test_def
  by (induction s) (auto simp: match_here_Chr split: option.splits)

section \<open>Rounding to the nearest Number\<close>

lemma binade_finite: "finite {e \<in> {-1022..1023::int}. e = -1022 \<or> 2 powi e \<le> \<bar>x::real\<bar>}"
  by (rule finite_subset[of _ "{-1022..1023}"]) auto






lemma binade_eq:
  assumes "-1022 \<le> e" "e \<le> 1023" "e = -1022 \<or> 2 powi e \<le> \<bar>x\<bar>" "\<bar>x\<bar> < 2 powi (e + 1)"
  shows "binade x = e"
  unfolding binade_def
proof (rule Max_eqI)
  show "finite {e \<in> {-1022..1023}. e = -1022 \<or> 2 powi e \<le> \<bar>x\<bar>}" by (rule binade_finite)
  show "e \<in> {e \<in> {-1022..1023}. e = -1022 \<or> 2 powi e \<le> \<bar>x\<bar>}" using assms by auto
  fix y assume y: "y \<in> {e \<in> {-1022..1023}. e = -1022 \<or> 2 powi e \<le> \<bar>x\<bar>}"
  show "y \<le> e"
  proof (rule ccontr)
    assume "\<not> y \<le> e"
    then have l: "e + 1 \<le> y" by simp
    then have "y \<noteq> -1022" using assms(1) by simp
    with y have "2 powi y \<le> \<bar>x\<bar>" by simp
    moreover have "(2::real) powi (e + 1) \<le> 2 powi y" using l by (intro power_int_increasing) simp_all
    ultimately show False using assms(4) by simp
  qed
qed


lemma round_even_cases: "round_even y = \<lfloor>y\<rfloor> \<or> round_even y = \<lfloor>y\<rfloor> + 1"
  by (simp add: round_even_def Let_def)

lemma round_even_of_int: "round_even (of_int n) = n"
  by (simp add: round_even_def)

lemma round_even_mono:
  assumes "x \<le> y"
  shows "round_even x \<le> round_even y"
proof -
  have f: "\<lfloor>x\<rfloor> \<le> \<lfloor>y\<rfloor>" using assms by (rule floor_mono)
  show ?thesis
  proof (cases "\<lfloor>x\<rfloor> = \<lfloor>y\<rfloor>")
    case True
    then show ?thesis using assms by (auto simp: round_even_def Let_def)
  next
    case False
    with f have "\<lfloor>x\<rfloor> + 1 \<le> \<lfloor>y\<rfloor>" by simp
    moreover have "round_even x \<le> \<lfloor>x\<rfloor> + 1" using round_even_cases[of x] by auto
    moreover have "\<lfloor>y\<rfloor> \<le> round_even y" using round_even_cases[of y] by auto
    ultimately show ?thesis by simp
  qed
qed


lemma ulp_pos: "0 < (2::real) powi e"
  by simp

lemma round_double_nonpos: "x \<le> 0 \<Longrightarrow> round_double x \<le> 0"
proof -
  assume x: "x \<le> 0"
  have "x / 2 powi (binade x - 52) \<le> 0" using x by (simp add: divide_nonpos_pos)
  from round_even_mono[OF this] have "round_even (x / 2 powi (binade x - 52)) \<le> 0"
    using round_even_of_int[of 0] by simp
  then show ?thesis
    by (simp add: round_double_def Let_def mult_le_0_iff)
qed



lemma round_double_in_binade:
  assumes "-1022 \<le> e" "e \<le> 1023" "e = -1022 \<or> 2 powi e \<le> \<bar>x\<bar>" "\<bar>x\<bar> < 2 powi (e + 1)"
  shows "round_double x = of_int (round_even (x / 2 powi (e - 52))) * 2 powi (e - 52)"
  by (simp add: round_double_def Let_def binade_eq[OF assms])

lemma round_double_0: "round_double 0 = 0"
  by (simp add: round_double_def round_even_def)



lemma round_double_005: "round_double (5 / 100) = 3602879701896397 / 2 ^ 56"
  by (subst round_double_in_binade[of "-5"]) (simp_all add: round_even_def)




text \<open>The Numbers that the literals of the examples denote, and others met there.\<close>

lemma number_twentieth: "round_double (1 / 20) = 3602879701896397 / 72057594037927936"
  by (subst round_double_in_binade[of "-5"]) (simp_all add: round_even_def)

lemma number_tenth: "round_double (1 / 10) = 3602879701896397 / 36028797018963968"
  by (subst round_double_in_binade[of "-4"]) (simp_all add: round_even_def)

lemma number_hundredth: "round_double (1 / 100) = 5764607523034235 / 576460752303423488"
  by (subst round_double_in_binade[of "-7"]) (simp_all add: round_even_def)


lemma number_nine_tenths: "round_double (9 / 10) = 8106479329266893 / 9007199254740992"
  by (subst round_double_in_binade[of "-1"]) (simp_all add: round_even_def)

lemma number_005: "number (1 / 20) = 3602879701896397 / 2 ^ 56"
  by (simp add: number_def number_twentieth)

lemma number_01: "number (1 / 10) = 3602879701896397 / 2 ^ 55"
  by (simp add: number_def number_tenth)

lemma twentieth_is_number:
  "round_double (3602879701896397 / 72057594037927936) = 3602879701896397 / 72057594037927936"
  by (subst round_double_in_binade[of "-5"]) (simp_all add: round_even_def)

lemma twentieth_hundredfold: "round_double (90071992547409925 / 18014398509481984) = 5"
  by (subst round_double_in_binade[of "2"]) (simp_all add: round_even_def)

lemma nine_tenths_hundredfold: "round_double (202661983231672325 / 2251799813685248) = 90"
  by (subst round_double_in_binade[of "6"]) (simp_all add: round_even_def)

section \<open>The confidence adjustment\<close>





















section \<open>The CSV serialisation\<close>

text \<open>
  A field as standard CSV quoting writes it: wrapped in double quotes, each double quote
  inside doubled, when it holds a comma (44), a double quote (34) or a line feed (10), and
  as it is otherwise.
\<close>

definition csv_field :: "jsstring \<Rightarrow> jsstring" where
  "csv_field cell =
     (if 44 \<in> set cell \<or> 34 \<in> set cell \<or> 10 \<in> set cell
      then [34] @ concat (map (\<lambda>x. if x = 34 then [34, 34] else [x]) cell) @ [34]
      else cell)"

lemma escapeCsvRow_fields: "escapeCsvRow row = join [44] (map csv_field row)"
proof -
  have "(\<lambda>cell. if str_includes cell [44] \<or> str_includes cell [34] \<or> str_includes cell [10]
              then [34] @ replace_all (Lit 34) [34, 34] cell @ [34] else cell) = csv_field"
    by (rule ext) (simp add: csv_field_def str_includes_single replace_all_Lit)
  then show ?thesis by (simp add: escapeCsvRow_def)
qed

lemma newlines_to_spaces:
  "replace_all (Lit 10) [32] s = map (\<lambda>x. if x = 10 then 32 else x) s"
  unfolding replace_all_Lit by (induction s) simp_all

lemma csv_header_row:
  "escapeCsvRow csvHeaders = js ''ID,Type,Content,Confidence,Page,Paragraph,Has Table Data''"
  by (simp add: escapeCsvRow_fields csvHeaders_def csv_field_def js_def)

text \<open>
  C10. The CSV text is the rows joined by line feeds: first the header row, then one row
  per content unit in the order of \<open>contents\<close>, with every line feed of the content
  replaced by a space, then the comment lines of the metadata when they are asked for;
  a row is its fields joined by commas, each field quoted as \<open>csv_field\<close> says.
\<close>

theorem generateCsv_layout:
  "generateCsv numstr result options =
     join [10]
       (js ''ID,Type,Content,Confidence,Page,Paragraph,Has Table Data''
        # map (\<lambda>c. join [44] (map csv_field
                 [ident c,
                  ctype c,
                  map (\<lambda>x. if x = 10 then 32 else x) (content c),
                  numstr (confidence c),
                  (case position c of None \<Rightarrow> []
                   | Some p \<Rightarrow> (case page p of None \<Rightarrow> [] | Some n \<Rightarrow> numstr n)),
                  (case position c of None \<Rightarrow> []
                   | Some p \<Rightarrow> (case paragraph' p of None \<Rightarrow> [] | Some n \<Rightarrow> numstr n)),
                  (if tableData c = None then js ''No'' else js ''Yes'')]))
            (contents result)
        @ (if includeMetadata options then csvMetadataRows numstr result else []))
   \<and> escapeCsvRow row = join [44] (map csv_field row)"
proof
  show "escapeCsvRow row = join [44] (map csv_field row)" by (rule escapeCsvRow_fields)
next
  have "(\<lambda>c. escapeCsvRow (csvRow numstr c)) =
        (\<lambda>c. join [44] (map csv_field
                 [ident c,
                  ctype c,
                  map (\<lambda>x. if x = 10 then 32 else x) (content c),
                  numstr (confidence c),
                  (case position c of None \<Rightarrow> []
                   | Some p \<Rightarrow> (case page p of None \<Rightarrow> [] | Some n \<Rightarrow> numstr n)),
                  (case position c of None \<Rightarrow> []
                   | Some p \<Rightarrow> (case paragraph' p of None \<Rightarrow> [] | Some n \<Rightarrow> numstr n)),
                  (if tableData c = None then js ''No'' else js ''Yes'')]))"
    by (rule ext) (simp add: escapeCsvRow_fields csvRow_def newlines_to_spaces)
  then show "generateCsv numstr result options =
     join [10]
       (js ''ID,Type,Content,Confidence,Page,Paragraph,Has Table Data''
        # map (\<lambda>c. join [44] (map csv_field
                 [ident c,
                  ctype c,
                  map (\<lambda>x. if x = 10 then 32 else x) (content c),
                  numstr (confidence c),
                  (case position c of None \<Rightarrow> []
                   | Some p \<Rightarrow> (case page p of None \<Rightarrow> [] | Some n \<Rightarrow> numstr n)),
                  (case position c of None \<Rightarrow> []
                   | Some p \<Rightarrow> (case paragraph' p of None \<Rightarrow> [] | Some n \<Rightarrow> numstr n)),
                  (if tableData c = None then js ''No'' else js ''Yes'')]))
            (contents result)
        @ (if includeMetadata options then csvMetadataRows numstr result else []))"
    by (simp add: generateCsv_def generateCsv_rows_def csv_header_row)
qed

section \<open>Header detection\<close>

text \<open>
  A cell that speaks for a header row: in lower case it contains one of the words
  \<open>name\<close>, \<open>type\<close>, \<open>description\<close>, \<open>value\<close>, or it holds no digit.
\<close>

definition header_like :: "jsstring \<Rightarrow> bool" where
  "header_like cell \<longleftrightarrow>
     (\<exists>tok \<in> {js ''name'', js ''type'', js ''description'', js ''value''}.
        \<exists>p q. toLowerCase cell = p @ tok @ q)
     \<or> (\<forall>ch \<in> set cell. \<not> is_digit ch)"

lemma header_like_code:
  "header_like cell \<longleftrightarrow>
     str_includes (toLowerCase cell) (js ''name'') \<or>
     str_includes (toLowerCase cell) (js ''type'') \<or>
     str_includes (toLowerCase cell) (js ''description'') \<or>
     str_includes (toLowerCase cell) (js ''value'') \<or>
     \<not> rx_test (Chr is_digit) cell"
  unfolding header_like_def str_includes_iff rx_test_Chr by auto

lemma detectHeaders_Cons:
  "detectHeaders (firstRow # rest) =
     (if \<exists>cell \<in> set firstRow. header_like cell then Some firstRow else None)"
  by (simp add: detectHeaders_def header_like_code list_ex_iff)

text \<open>
  C6. For a block whose first row is \<open>firstRow\<close>: the first row is returned as the
  headers iff one of its cells is \<open>header_like\<close>; then the rows are the block without its
  first row; otherwise the headers are absent and the rows are the whole block.
\<close>

theorem detectHeaders_first_row:
  "detectHeaders (firstRow # rest) =
     (if \<exists>cell \<in> set firstRow. header_like cell then Some firstRow else None)
   \<and> closeTable (firstRow # rest) =
     (if \<exists>cell \<in> set firstRow. header_like cell
      then \<lparr>headers = Some firstRow, rows = rest\<rparr>
      else \<lparr>headers = None, rows = firstRow # rest\<rparr>)"
  by (simp add: closeTable_def detectHeaders_Cons)

theorem detectHeaders_first_row_witness:
  "closeTable [[js ''NAME 1'', js ''Qty 2''], [js ''Bolt'', js ''40'']] =
     \<lparr>headers = Some [js ''NAME 1'', js ''Qty 2''], rows = [[js ''Bolt'', js ''40'']]\<rparr>
   \<and> closeTable [[js ''Code 1'', js ''Total''], [js ''7'', js ''8'']] =
     \<lparr>headers = Some [js ''Code 1'', js ''Total''], rows = [[js ''7'', js ''8'']]\<rparr>
   \<and> closeTable [[js ''2020'', js ''17''], [js ''2021'', js ''18'']] =
     \<lparr>headers = None, rows = [[js ''2020'', js ''17''], [js ''2021'', js ''18'']]\<rparr>"
  using detectHeaders_first_row[of "[js ''NAME 1'', js ''Qty 2'']" "[[js ''Bolt'', js ''40'']]"]
        detectHeaders_first_row[of "[js ''Code 1'', js ''Total'']" "[[js ''7'', js ''8'']]"]
        detectHeaders_first_row[of "[js ''2020'', js ''17'']" "[[js ''2021'', js ''18'']]"]
  by (simp add: header_like_code rx_test_Chr toLowerCase_def js_def is_digit_def)

section \<open>Evaluating the matcher on given texts\<close>

definition star_list :: "rx \<Rightarrow> nat \<Rightarrow> (jsstring \<times> caps) list \<Rightarrow> (jsstring \<times> caps) list" where
  "star_list a n rs =
     concat (map (\<lambda>r. if length (fst r) < n then rmatch (Star a) (fst r) (snd r) else []) rs)"

lemma star_list_Nil: "star_list a n [] = []"
  by (simp add: star_list_def)

lemma star_list_Cons:
  "star_list a n (r # rs) =
     (if length (fst r) < n then rmatch (Star a) (fst r) (snd r) else []) @ star_list a n rs"
  by (simp add: star_list_def)

lemma rmatch_Star_eval: "rmatch (Star a) s c = star_list a (length s) (rmatch a s c) @ [(s, c)]"
  by (simp add: star_list_def rmatch.simps(4))

lemmas rx_eval = rmatch_Star_eval star_list_Nil star_list_Cons match_here_def
  is_ws_def is_word_def is_digit_def ci_def trim_def Plus_def Lit_def js_def group_def

lemmas split_eval = splitValues_def split_rx_def delimPattern_def conjPattern_def

declare extractFields_loop.simps [simp del]

lemma extractFields_loop_None: "exec colonPattern s = None \<Longrightarrow> extractFields_loop s = []"
  by (subst extractFields_loop.simps) simp

lemma extractFields_loop_Some:
  "exec colonPattern s = Some (m, s', c) \<Longrightarrow>
   extractFields_loop s =
     (if length (splitValues (trim (group c 2))) > 0
      then [\<lparr>key = trim (group c 1), vals = splitValues (trim (group c 2)),
             rawText = take (length m - length s') m\<rparr>]
      else []) @ extractFields_loop s'"
  by (subst extractFields_loop.simps) (simp add: Let_def)

section \<open>Scenario A\<close>

definition scenarioA :: jsstring where
  "scenarioA = js ''Country: India, US, China'' @ [10] @ js ''TripType: OneWay, RoundTrip''"

lemma scenarioA_exec1:
  "exec colonPattern scenarioA =
     Some (scenarioA, 10 # js ''TripType: OneWay, RoundTrip'',
           [(2, js ''India, US, China''), (1, js ''Country'')])"
  by (simp add: scenarioA_def colonPattern_def rx_eval)

lemma scenarioA_exec2:
  "exec colonPattern (10 # js ''TripType: OneWay, RoundTrip'') =
     Some (js ''TripType: OneWay, RoundTrip'', [],
           [(2, js ''OneWay, RoundTrip''), (1, js ''TripType'')])"
  by (simp add: colonPattern_def rx_eval)

lemma exec_colonPattern_Nil: "exec colonPattern [] = None"
  by (simp add: colonPattern_def rx_eval)

lemma scenarioA_values:
  "splitValues (js ''India, US, China'') = [js ''India'', js ''US'', js ''China'']"
  "splitValues (js ''OneWay, RoundTrip'') = [js ''OneWay'', js ''RoundTrip'']"
  by (simp_all add: split_eval rx_eval)

lemma scenarioA_trim:
  "trim (js ''India, US, China'') = js ''India, US, China''"
  "trim (js ''OneWay, RoundTrip'') = js ''OneWay, RoundTrip''"
  "trim (js ''Country'') = js ''Country''"
  "trim (js ''TripType'') = js ''TripType''"
  by (simp_all add: rx_eval)

lemma scenarioA_fields:
  "extractFields scenarioA =
     [\<lparr>key = js ''Country'', vals = [js ''India'', js ''US'', js ''China''],
       rawText = js ''Country: India, US, China''\<rparr>,
      \<lparr>key = js ''TripType'', vals = [js ''OneWay'', js ''RoundTrip''],
       rawText = js ''TripType: OneWay, RoundTrip''\<rparr>]"
  unfolding extractFields_def
  apply (subst extractFields_loop_Some[OF scenarioA_exec1])
  apply (subst extractFields_loop_Some[OF scenarioA_exec2])
  apply (subst extractFields_loop_None[OF exec_colonPattern_Nil])
  apply (simp add: group_def scenarioA_trim scenarioA_values)
  apply (simp add: scenarioA_def js_def)
  done

lemma scenarioA_merged:
  "mergeFields (extractFields scenarioA) =
     [(js ''Country'', [js ''India'', js ''US'', js ''China'']),
      (js ''TripType'', [js ''OneWay'', js ''RoundTrip''])]"
  unfolding scenarioA_fields
  by (simp add: mergeFields_def merge_field_def js_def)

text \<open>
  C1. For the text of scenario A, \<open>extractFields\<close> then \<open>mergeFields\<close> gives the keys
  \<open>Country\<close>, \<open>TripType\<close> in this order, and \<open>toFlatStructure\<close> gives three rows:
  India and OneWay, US and RoundTrip, China and the empty string.
\<close>

theorem scenarioA_flat:
  "scenarioA = js ''Country: India, US, China'' @ [10] @ js ''TripType: OneWay, RoundTrip''
   \<and> map fst (mergeFields (extractFields scenarioA)) = [js ''Country'', js ''TripType'']
   \<and> toFlatStructure (extractFields scenarioA) =
     [[(js ''Country'', js ''India''), (js ''TripType'', js ''OneWay'')],
      [(js ''Country'', js ''US''), (js ''TripType'', js ''RoundTrip'')],
      [(js ''Country'', js ''China''), (js ''TripType'', [])]]"
proof (intro conjI)
  show "scenarioA = js ''Country: India, US, China'' @ [10] @ js ''TripType: OneWay, RoundTrip''"
    by (rule scenarioA_def)
  show "map fst (mergeFields (extractFields scenarioA)) = [js ''Country'', js ''TripType'']"
    by (simp add: scenarioA_merged)
  have ne: "length (extractFields scenarioA) \<noteq> 0" by (simp add: scenarioA_fields)
  show "toFlatStructure (extractFields scenarioA) =
     [[(js ''Country'', js ''India''), (js ''TripType'', js ''OneWay'')],
      [(js ''Country'', js ''US''), (js ''TripType'', js ''RoundTrip'')],
      [(js ''Country'', js ''China''), (js ''TripType'', [])]]"
    unfolding toFlatStructure_def using ne
    by (simp add: scenarioA_merged max_list_def Let_def cell_at_def row_set_def
                  is_array_index_def is_digit_def js_def)
qed

section \<open>The table heuristic\<close>

text \<open>
  The cells of a line, as the loop of \<open>extractTables\<close> computes them (the line is trimmed
  first), and the lines that count as table rows.
\<close>

definition cells :: "jsstring \<Rightarrow> jsstring list" where
  "cells l = splitTableRow (trim l)"

definition is_row :: "jsstring \<Rightarrow> bool" where
  "is_row l \<longleftrightarrow> length (cells l) \<ge> 2"

text \<open>The check made when a block ends, in the loop and after it.\<close>

definition finish :: "TableData list \<times> jsstring list list \<times> bool \<Rightarrow> TableData list" where
  "finish st =
     (case st of (tables, currentTable, inTable) \<Rightarrow>
        if inTable \<and> length currentTable > 1 then tables @ [closeTable currentTable] else tables)"

lemma extractTables_lines_finish: "extractTables_lines ls = finish (extractTables_loop ls [] [] False)"
  by (simp add: extractTables_lines_def finish_def)

lemma loop_row:
  "is_row l \<Longrightarrow>
   extractTables_loop (l # ls) tables cur inT =
     extractTables_loop ls tables ((if inT then cur else []) @ [cells l]) True"
  by (simp add: is_row_def cells_def Let_def)

lemma loop_other:
  "\<not> is_row l \<Longrightarrow>
   extractTables_loop (l # ls) tables cur inT = extractTables_loop ls (finish (tables, cur, inT)) [] False"
  by (simp add: is_row_def cells_def Let_def finish_def)

declare extractTables_loop.simps(2) [simp del]

lemma loop_append:
  "extractTables_loop (xs @ ys) tables cur inT =
     (case extractTables_loop xs tables cur inT of (t, c, i) \<Rightarrow> extractTables_loop ys t c i)"
proof (induction xs arbitrary: tables cur inT)
  case Nil
  show ?case by simp
next
  case (Cons x xs)
  show ?case by (cases "is_row x") (simp_all add: loop_row loop_other Cons.IH)
qed

lemma loop_rows:
  "\<forall>l\<in>set grp. is_row l \<Longrightarrow> grp \<noteq> [] \<Longrightarrow>
   extractTables_loop grp tables cur inT = (tables, (if inT then cur else []) @ map cells grp, True)"
proof (induction grp arbitrary: cur inT)
  case Nil
  then show ?case by simp
next
  case (Cons l grp)
  then have l: "is_row l" and rest: "\<forall>l\<in>set grp. is_row l" by simp_all
  show ?case
  proof (cases "grp = []")
    case True
    then show ?thesis by (simp add: loop_row[OF l])
  next
    case False
    from Cons.IH[OF rest False] show ?thesis by (simp add: loop_row[OF l])
  qed
qed

lemma loop_tables:
  "extractTables_loop ls (T @ tables) cur inT =
     (case extractTables_loop ls tables cur inT of (t, c, i) \<Rightarrow> (T @ t, c, i))"
proof (induction ls arbitrary: tables cur inT)
  case Nil
  show ?case by simp
next
  case (Cons l ls)
  show ?case
  proof (cases "is_row l")
    case True
    then show ?thesis by (simp add: loop_row Cons.IH)
  next
    case False
    have "finish (T @ tables, cur, inT) = T @ finish (tables, cur, inT)"
      by (simp add: finish_def)
    with False show ?thesis by (simp add: loop_other Cons.IH)
  qed
qed

lemma finish_tables: "finish (T @ t, c, i) = T @ finish (t, c, i)"
  by (simp add: finish_def)

lemma lines_from: "finish (extractTables_loop ls T [] False) = T @ extractTables_lines ls"
proof -
  obtain t c i where r: "extractTables_loop ls [] [] False = (t, c, i)" by (cases "extractTables_loop ls [] [] False")
  have "extractTables_loop ls (T @ []) [] False = (T @ t, c, i)"
    by (simp only: loop_tables r prod.case)
  then show ?thesis by (simp add: extractTables_lines_finish r finish_tables)
qed

lemma loop_closed_prefix:
  assumes "pre = [] \<or> \<not> is_row (last pre)"
  shows "extractTables_loop pre [] [] False = (extractTables_lines pre, [], False)"
proof (cases "pre = []")
  case True
  then show ?thesis by (simp add: extractTables_lines_finish finish_def)
next
  case False
  then obtain xs l where pre: "pre = xs @ [l]" by (metis append_butlast_last_id)
  with assms have l: "\<not> is_row l" by simp
  obtain t c i where r: "extractTables_loop xs [] [] False = (t, c, i)"
    by (cases "extractTables_loop xs [] [] False")
  have "extractTables_loop pre [] [] False = (finish (t, c, i), [], False)"
    by (simp add: pre loop_append r loop_other[OF l])
  then show ?thesis by (simp add: extractTables_lines_finish finish_def)
qed

lemma closeTable_rows: "length b \<ge> 2 \<Longrightarrow> length (rows (closeTable b)) \<ge> 1"
  by (cases b) (auto simp: closeTable_def Let_def)

text \<open>
  A maximal group of consecutive table rows, between lines that are not rows, gives one
  table when it has two lines or more and none otherwise, whatever comes before and
  after it.
\<close>

lemma extractTables_group_trimmed:
  assumes "split_chr 10 text = pre @ grp @ post"
    and "grp \<noteq> []"
    and "\<forall>l\<in>set grp. is_row l"
    and "pre = [] \<or> \<not> is_row (last pre)"
    and "post = [] \<or> \<not> is_row (hd post)"
  shows "extractTables text =
           extractTables_lines pre
           @ (if length grp \<ge> 2 then [closeTable (map cells grp)] else [])
           @ extractTables_lines post
         \<and> (length grp \<ge> 2 \<longrightarrow> length (rows (closeTable (map cells grp))) \<ge> 1)"
proof
  show "length grp \<ge> 2 \<longrightarrow> length (rows (closeTable (map cells grp))) \<ge> 1"
    using closeTable_rows[of "map cells grp"] by simp
next
  let ?T = "extractTables_lines pre"
  let ?G = "if length grp \<ge> 2 then [closeTable (map cells grp)] else []"
  have after_grp: "extractTables_loop (pre @ grp @ post) [] [] False =
                   extractTables_loop post ?T (map cells grp) True"
    by (simp add: loop_append[of pre] loop_closed_prefix[OF assms(4)]
                  loop_append[of grp] loop_rows[OF assms(3) assms(2)])
  have fin: "finish (?T, map cells grp, True) = ?T @ ?G"
    by (auto simp: finish_def)
  have "finish (extractTables_loop post ?T (map cells grp) True) = ?T @ ?G @ extractTables_lines post"
  proof (cases post)
    case Nil
    then show ?thesis using fin by (simp add: extractTables_lines_finish finish_def)
  next
    case (Cons l post')
    with assms(5) have l: "\<not> is_row l" by simp
    have "extractTables_lines post = extractTables_lines post'"
      by (simp add: Cons extractTables_lines_finish loop_other[OF l] finish_def)
    moreover have "finish (extractTables_loop post ?T (map cells grp) True) =
                   (?T @ ?G) @ extractTables_lines post'"
      by (simp only: Cons loop_other[OF l] fin lines_from)
    ultimately show ?thesis by simp
  qed
  then show "extractTables text = ?T @ ?G @ extractTables_lines post"
    by (simp add: extractTables_def extractTables_lines_finish assms(1) after_grp)
qed

lemma table_example_cells:
  "cells (js ''Overview'') = [js ''Overview'']"
  "cells (js ''Part  Qty'') = [js ''Part'', js ''Qty'']"
  "cells (js ''Bolt  40'') = [js ''Bolt'', js ''40'']"
  "cells (js ''Done'') = [js ''Done'']"
  by (simp_all add: cells_def splitTableRow_def split_rx_def tableSepPattern_def rx_eval)

lemma table_example_rows:
  "\<not> is_row (js ''Overview'')" "is_row (js ''Part  Qty'')" "is_row (js ''Bolt  40'')"
  "\<not> is_row (js ''Done'')"
  by (simp_all add: is_row_def table_example_cells)

lemma table_example_single_lines:
  "extractTables_lines [js ''Overview''] = []" "extractTables_lines [js ''Done''] = []"
  "extractTables_lines [] = []"
  by (simp_all add: extractTables_lines_finish loop_other table_example_rows finish_def)

lemma table_example_close:
  "closeTable [[js ''Part'', js ''Qty''], [js ''Bolt'', js ''40'']] =
     \<lparr>headers = Some [js ''Part'', js ''Qty''], rows = [[js ''Bolt'', js ''40'']]\<rparr>"
  by (simp add: closeTable_def detectHeaders_Cons header_like_def js_def is_digit_def)

section \<open>Normalising and splitting into paragraphs\<close>

lemma match_here_Plus_Chr:
  "match_here (Plus (Chr P)) s =
     (case s of [] \<Rightarrow> None | x # xs \<Rightarrow> if P x then Some (dropWhile P xs, []) else None)"
  by (simp add: match_here_first first_Plus_Chr)

lemma replace_all_Plus_Nil: "replace_all (Plus (Chr P)) rep [] = []"
  by (simp add: match_here_Plus_Chr)

lemma replace_all_Plus_Cons:
  "replace_all (Plus (Chr P)) rep (x # xs) =
     (if P x then rep @ replace_all (Plus (Chr P)) rep (dropWhile P xs)
      else x # replace_all (Plus (Chr P)) rep xs)"
  by (simp add: match_here_Plus_Chr less_Suc_eq_le length_dropWhile_le)

lemma replace_all_Plus_set:
  "set (replace_all (Plus (Chr P)) rep s) \<subseteq> set rep \<union> {c \<in> set s. \<not> P c}"
proof (induction "length s" arbitrary: s rule: less_induct)
  case less
  show ?case
  proof (cases s)
    case Nil
    then show ?thesis by (simp only: replace_all_Plus_Nil) simp
  next
    case (Cons x xs)
    show ?thesis
    proof (cases "P x")
      case True
      have "length (dropWhile P xs) < length s" using Cons by (simp add: less_Suc_eq_le length_dropWhile_le)
      from less[OF this] have "set (replace_all (Plus (Chr P)) rep (dropWhile P xs))
             \<subseteq> set rep \<union> {c \<in> set (dropWhile P xs). \<not> P c}" .
      moreover have "set (dropWhile P xs) \<subseteq> set xs" by (auto dest: set_dropWhileD)
      ultimately show ?thesis using Cons True by (simp only: replace_all_Plus_Cons) auto
    next
      case False
      have "length xs < length s" using Cons by simp
      from less[OF this] show ?thesis using Cons False by (simp only: replace_all_Plus_Cons) auto
    qed
  qed
qed

lemma set_trim: "set (trim s) \<subseteq> set s"
  by (auto simp: trim_def dest!: set_dropWhileD)

lemma trim_ends: "trim s = [] \<or> (\<not> is_ws (hd (trim s)) \<and> \<not> is_ws (last (trim s)))"
proof (cases "trim s = []")
  case True
  then show ?thesis by simp
next
  case False
  define u where "u = dropWhile is_ws s"
  define v where "v = dropWhile is_ws (rev u)"
  have t: "trim s = rev v" by (simp add: trim_def u_def v_def)
  with False have v: "v \<noteq> []" by simp
  then have hv: "\<not> is_ws (hd v)" unfolding v_def by (rule hd_dropWhile)
  from v have ru: "rev u \<noteq> []" unfolding v_def by auto
  then have u: "u \<noteq> []" by simp
  then have hu: "\<not> is_ws (hd u)" unfolding u_def by (rule hd_dropWhile)
  have "rev u = takeWhile is_ws (rev u) @ v" by (simp add: v_def)
  then have "last (rev u) = last v" using v by (metis last_appendR)
  then have "last v = hd u" using u by (simp add: last_rev)
  then have "hd (rev v) = hd u" using v by (simp add: hd_rev)
  moreover have "last (rev v) = hd v" using v by (simp add: last_rev)
  ultimately show ?thesis using hu hv t by simp
qed

lemma dropWhile_id: "xs \<noteq> [] \<Longrightarrow> \<not> P (hd xs) \<Longrightarrow> dropWhile P xs = xs"
  by (cases xs) simp_all

lemma trim_id: "t = [] \<or> (\<not> is_ws (hd t) \<and> \<not> is_ws (last t)) \<Longrightarrow> trim t = t"
proof (cases "t = []")
  case True
  then show ?thesis by (simp add: trim_def)
next
  case False
  assume "t = [] \<or> (\<not> is_ws (hd t) \<and> \<not> is_ws (last t))"
  with False have h: "\<not> is_ws (hd t)" and l: "\<not> is_ws (last t)" by simp_all
  have 1: "dropWhile is_ws t = t" using False h by (rule dropWhile_id)
  have "hd (rev t) = last t" using False by (simp add: hd_rev)
  then have 2: "dropWhile is_ws (rev t) = rev t" using False l by (intro dropWhile_id) simp_all
  show ?thesis by (simp add: trim_def 1 2)
qed

lemma trim_trim: "trim (trim s) = trim s"
  by (rule trim_id) (rule trim_ends)

lemma normalizeText_trimmed: "trim (normalizeText t) = normalizeText t"
  unfolding normalizeText_def by (rule trim_trim)

lemma normalizeText_space: "c \<in> set (normalizeText t) \<Longrightarrow> is_ws c \<Longrightarrow> c = 32"
proof -
  assume c: "c \<in> set (normalizeText t)" and w: "is_ws c"
  from c obtain s where "c \<in> set (replace_all (Plus (Chr is_ws)) [32] s)"
    unfolding normalizeText_def using set_trim by blast
  with replace_all_Plus_set[of is_ws "[32]" s] w show "c = 32" by auto
qed

lemma normalizeText_no_newline: "10 \<notin> set (normalizeText t)"
  using normalizeText_space[of 10 t] by (auto simp: is_ws_def)

lemma match_here_paragraphPattern:
  "match_here paragraphPattern [] = None"
  "x \<noteq> 10 \<Longrightarrow> match_here paragraphPattern (x # xs) = None"
  by (simp_all add: match_here_first paragraphPattern_def Lit_def first_Seq_None first_Chr)

lemma split_go_no_newline:
  "10 \<notin> set s \<Longrightarrow> split_go paragraphPattern cur s = [rev cur @ s]"
  by (induction s arbitrary: cur) (simp_all add: match_here_paragraphPattern)

lemma split_rx_no_newline: "10 \<notin> set s \<Longrightarrow> split_rx paragraphPattern s = [s]"
  by (simp add: split_rx_def split_go_no_newline match_here_paragraphPattern)

lemma paragraphs_normalized:
  "splitIntoParagraphs (normalizeText t) = (if normalizeText t = [] then [] else [normalizeText t])"
  by (simp add: splitIntoParagraphs_def split_rx_no_newline[OF normalizeText_no_newline]
                normalizeText_trimmed)

lemma analyzeText_single:
  "analyzeText init an ids pg t = Inr cs \<Longrightarrow>
   length cs \<le> 1 \<and> (\<forall>c\<in>set cs. content c = normalizeText t \<and>
                        position c = Some \<lparr>page = pg, paragraph' = Some 0\<rparr>)"
  by (auto simp: analyzeText_def paragraphs_normalized Let_def
           split: if_splits sum.splits list.splits)

lemma analyzeText_short: "length (normalizeText t) < 10 \<Longrightarrow> analyzeText init an ids pg t = Inr []"
  by (simp add: analyzeText_def paragraphs_normalized)

text \<open>
  C2. \<open>normalizeText\<close> leaves no line feed (the only white space left is the space), so
  splitting its result into paragraphs gives the whole normalised text as the one
  paragraph, or nothing when it is empty. \<open>analyzeText\<close> therefore gives no unit when the
  normalised text has fewer than 10 code units, and otherwise at most one unit, whose
  content is the whole normalised text and whose paragraph index is 0.
\<close>

theorem paragraphs_at_most_one:
  "length (splitIntoParagraphs (normalizeText t)) \<le> 1
   \<and> 10 \<notin> set (normalizeText t)
   \<and> splitIntoParagraphs (normalizeText t) = (if normalizeText t = [] then [] else [normalizeText t])
   \<and> (length (normalizeText t) < 10 \<longrightarrow> analyzeText init an ids pg t = Inr [])
   \<and> (analyzeText init an ids pg t = Inr cs \<longrightarrow>
        length cs \<le> 1 \<and> (\<forall>c\<in>set cs. content c = normalizeText t \<and>
                             position c = Some \<lparr>page = pg, paragraph' = Some 0\<rparr>))"
  using analyzeText_single[of init an ids pg t cs] analyzeText_short[of t init an ids pg]
  by (simp add: paragraphs_normalized normalizeText_no_newline)

section \<open>Examples of classifiers and analyzers\<close>

definition exampleAnalyzer :: ContentAnalyzer where
  "exampleAnalyzer = \<lparr>a_confidenceThreshold = 1 / 2, a_classificationLabels = [js ''text'']\<rparr>"

definition lowThresholdAnalyzer :: ContentAnalyzer where
  "lowThresholdAnalyzer =
     \<lparr>a_confidenceThreshold = number 0.01, a_classificationLabels = [js ''text'']\<rparr>"

definition exampleIds :: "nat \<Rightarrow> jsstring" where
  "exampleIds k = js ''id''"

text \<open>A scorer that gives every label the score 0.9, and one that fails on every call.\<close>

definition steadyScorer :: scorer where
  "steadyScorer text labels = Inr (Some (map (\<lambda>label. (label, number 0.9)) labels))"

definition failingScorer :: scorer where
  "failingScorer text labels = Inl InferenceError"

definition twoParagraphs :: jsstring where
  "twoParagraphs = js ''First paragraph.'' @ [10, 10] @ js ''Second one.''"

definition shortText :: jsstring where
  "shortText = js ''Hi'' @ [10, 10] @ js ''there''"

lemma normalizeText_twoParagraphs: "normalizeText twoParagraphs = js ''First paragraph. Second one.''"
  by (simp add: normalizeText_def twoParagraphs_def rx_eval)

lemma normalizeText_shortText: "normalizeText shortText = js ''Hi there''"
  by (simp add: normalizeText_def shortText_def rx_eval)

lemma analyzeText_paragraph:
  "analyzeText init an ids pg t =
     analyzeText_loop init an ids pg (if normalizeText t = [] then [] else [normalizeText t]) 0 0"
  by (simp only: analyzeText_def paragraphs_normalized)

lemma calculateConfidence_steady:
  assumes "20 \<le> length text" "length text \<le> 100"
  shows "calculateConfidence text (number 0.9) = number 0.9"
  using assms
  by (simp add: calculateConfidence_def Let_def num_mul_def num_div_def math_round_def
                number_def number_nine_tenths nine_tenths_hundredfold)

lemma analyzeText_twoParagraphs:
  "analyzeText (Inr (Some steadyScorer)) exampleAnalyzer exampleIds None twoParagraphs =
     Inr [\<lparr>ident = js ''id'', ctype = js ''text'', content = js ''First paragraph. Second one.'',
           confidence = number 0.9, position = Some \<lparr>page = None, paragraph' = Some 0\<rparr>,
           tableData = None\<rparr>]"
proof -
  have c: "calculateConfidence (js ''First paragraph. Second one.'') (number 0.9) = number 0.9"
    by (rule calculateConfidence_steady) (simp_all add: js_def)
  have n: "1 / 2 \<le> number 0.9" by (simp add: number_def number_nine_tenths)
  have t: "trim (js ''First paragraph. Second one.'') \<noteq> []"
    by (simp add: js_def trim_def is_ws_def)
  show ?thesis
    unfolding analyzeText_paragraph normalizeText_twoParagraphs
    using c n t
    by (simp add: classify_def steadyScorer_def exampleAnalyzer_def exampleIds_def)
       (simp add: js_def)
qed

theorem paragraphs_at_most_one_witness:
  "splitIntoParagraphs (normalizeText twoParagraphs) = [js ''First paragraph. Second one.'']
   \<and> length (normalizeText shortText) < 10
   \<and> analyzeText (Inr (Some steadyScorer)) exampleAnalyzer exampleIds None shortText = Inr []
   \<and> analyzeText (Inr (Some steadyScorer)) exampleAnalyzer exampleIds None twoParagraphs =
     Inr [\<lparr>ident = js ''id'', ctype = js ''text'', content = js ''First paragraph. Second one.'',
           confidence = number 0.9, position = Some \<lparr>page = None, paragraph' = Some 0\<rparr>,
           tableData = None\<rparr>]
   \<and> length [\<lparr>ident = js ''id'', ctype = js ''text'', content = js ''First paragraph. Second one.'',
           confidence = number 0.9, position = Some \<lparr>page = None, paragraph' = Some 0\<rparr>,
           tableData = None\<rparr>] \<le> 1"
  using paragraphs_at_most_one[of twoParagraphs "Inr (Some steadyScorer)" exampleAnalyzer exampleIds None
          "[\<lparr>ident = js ''id'', ctype = js ''text'', content = js ''First paragraph. Second one.'',
           confidence = number 0.9, position = Some \<lparr>page = None, paragraph' = Some 0\<rparr>,
           tableData = None\<rparr>]"]
        paragraphs_at_most_one[of shortText "Inr (Some steadyScorer)" exampleAnalyzer exampleIds None "[]"]
        analyzeText_twoParagraphs
  by (simp add: normalizeText_twoParagraphs normalizeText_shortText) (simp add: js_def)

section \<open>A failing scorer\<close>

lemma classify_scorer_fails:
  "classifier text labels = Inl e \<Longrightarrow>
   classify (Inr (Some classifier)) text labels = Inr (map (\<lambda>label. (label, 0)) labels)"
  by (simp add: classify_def)

lemma calculateConfidence_zero:
  "calculateConfidence text 0 = (if length text > 100 then number 0.05 else 0)"
proof -
  have "round_double (0 - number 0.1) \<le> 0"
    by (rule round_double_nonpos) (simp add: number_01)
  then have m: "max 0 (round_double (0 - number 0.1)) = 0" by simp
  show ?thesis
  proof (cases "length text > 100")
    case True
    then show ?thesis
      by (simp add: calculateConfidence_def Let_def num_add_def num_mul_def num_div_def
                    math_round_def number_def number_twentieth twentieth_is_number
                    twentieth_hundredfold)
  next
    case False
    then show ?thesis using m
      by (simp add: calculateConfidence_def Let_def num_sub_def num_mul_def num_div_def
                    math_round_def round_double_0)
  qed
qed

lemma classify_initialised:
  "\<exists>cs. classify (Inr (Some classifier)) text labels = Inr cs"
  by (simp add: classify_def split: sum.splits option.splits)

lemma analyzeText_loop_returns:
  "\<exists>cs. analyzeText_loop (Inr (Some classifier)) an ids pg ps i k = Inr cs"
proof (induction ps arbitrary: i k)
  case Nil
  show ?case by simp
next
  case (Cons p ps)
  obtain cl where cl: "classify (Inr (Some classifier)) p (a_classificationLabels an) = Inr cl"
    using classify_initialised by blast
  obtain r1 where r1: "analyzeText_loop (Inr (Some classifier)) an ids pg ps (Suc i) k = Inr r1"
    using Cons.IH by blast
  obtain r2 where r2: "analyzeText_loop (Inr (Some classifier)) an ids pg ps (Suc i) (Suc k) = Inr r2"
    using Cons.IH by blast
  show ?case by (cases cl) (simp_all add: cl r1 r2 Let_def)
qed

lemma analyzeText_loop_skips:
  assumes "classifier p (a_classificationLabels an) = Inl e"
    and "calculateConfidence p 0 < a_confidenceThreshold an"
  shows "analyzeText_loop (Inr (Some classifier)) an ids pg (p # ps) i k =
         analyzeText_loop (Inr (Some classifier)) an ids pg ps (i + 1) k"
proof (cases "a_classificationLabels an")
  case Nil
  then show ?thesis
    using classify_scorer_fails[of classifier p "a_classificationLabels an" e, OF assms(1)] by simp
next
  case (Cons l ls)
  then show ?thesis
    using classify_scorer_fails[of classifier p "a_classificationLabels an" e, OF assms(1)] assms(2)
    by (simp add: Let_def)
qed

text \<open>
  C8, as the code has it. When the scorer fails on a paragraph, \<open>classify\<close> raises nothing
  and gives every requested label the score 0. The adjusted confidence of the paragraph
  is then 0, or 0.05 when the paragraph has more than 100 code units; under a threshold
  above this value the paragraph yields no unit and the loop goes on with the paragraphs
  that remain. With an initialised classifier \<open>analyzeText\<close> always returns a result.
\<close>

theorem scorer_failure_absorbed:
  assumes "classifier p (a_classificationLabels an) = Inl e"
  shows "classify (Inr (Some classifier)) p (a_classificationLabels an) =
           Inr (map (\<lambda>label. (label, 0)) (a_classificationLabels an))
         \<and> calculateConfidence p 0 = (if length p > 100 then number 0.05 else 0)
         \<and> ((if length p > 100 then number 0.05 else 0) < a_confidenceThreshold an \<longrightarrow>
              analyzeText_loop (Inr (Some classifier)) an ids pg (p # ps) i k =
              analyzeText_loop (Inr (Some classifier)) an ids pg ps (i + 1) k)
         \<and> (\<exists>cs. analyzeText (Inr (Some classifier)) an ids pg t = Inr cs)"
  using classify_scorer_fails[of classifier p "a_classificationLabels an" e, OF assms]
        analyzeText_loop_skips[of classifier p an e ids pg ps i k, OF assms]
        analyzeText_loop_returns[of classifier an ids pg "splitIntoParagraphs (normalizeText t)" 0 0]
  by (simp only: calculateConfidence_zero analyzeText_def) simp

text \<open>A text of 101 letters \<open>a\<close>.\<close>

definition longText :: jsstring where
  "longText = replicate 101 97"

lemma replace_all_no_match:
  "match_here r [] = None \<Longrightarrow> (\<And>x xs. x \<in> set t \<Longrightarrow> match_here r (x # xs) = None) \<Longrightarrow>
   replace_all r rep t = t"
  by (induction t) simp_all

lemma normalizeText_plain:
  assumes "\<forall>c\<in>set t. \<not> is_ws c"
  shows "normalizeText t = t"
proof -
  have ws: "\<And>x. x \<in> set t \<Longrightarrow> x \<noteq> 13 \<and> x \<noteq> 9"
    using assms by (auto simp: is_ws_def)
  have 1: "replace_all (Seq (Lit 13) (Lit 10)) [10] t = t"
    by (intro replace_all_no_match)
       (simp_all add: match_here_first Lit_def first_Seq_None first_Chr ws)
  have 2: "replace_all (Lit 13) [10] t = t"
    by (intro replace_all_no_match) (simp_all add: Lit_def match_here_Chr ws)
  have 3: "replace_all (Lit 9) [32] t = t"
    by (intro replace_all_no_match) (simp_all add: Lit_def match_here_Chr ws)
  have 4: "replace_all (Plus (Chr is_ws)) [32] t = t"
    using assms by (intro replace_all_no_match) (auto simp: match_here_Plus_Chr)
  have 5: "trim t = t"
  proof (cases "t = []")
    case True
    then show ?thesis by (simp add: trim_def)
  next
    case False
    then have "hd t \<in> set t" "last t \<in> set t" by simp_all
    with assms show ?thesis by (intro trim_id) auto
  qed
  show ?thesis by (simp add: normalizeText_def 1 2 3 4 5)
qed

lemma normalizeText_longText: "normalizeText longText = longText"
  by (rule normalizeText_plain) (simp add: longText_def is_ws_def)

lemma length_longText: "length longText = 101"
  by (simp add: longText_def)

lemma longText_not_blank: "length (trim longText) \<noteq> 0"
proof -
  have "trim longText = longText"
    by (rule trim_id) (simp add: longText_def is_ws_def)
  then show ?thesis by (simp add: length_longText)
qed

theorem scorer_failure_absorbed_witness:
  "failingScorer longText (a_classificationLabels exampleAnalyzer) = Inl InferenceError
   \<and> classify (Inr (Some failingScorer)) longText (a_classificationLabels exampleAnalyzer) =
       Inr [(js ''text'', 0)]
   \<and> calculateConfidence longText 0 = number 0.05
   \<and> analyzeText_loop (Inr (Some failingScorer)) exampleAnalyzer exampleIds None [longText] 0 0 = Inr []"
proof -
  have f: "failingScorer longText (a_classificationLabels exampleAnalyzer) = Inl InferenceError"
    by (simp add: failingScorer_def)
  from scorer_failure_absorbed[of failingScorer longText exampleAnalyzer InferenceError
         exampleIds None "[]" 0 0 longText, OF f]
  show ?thesis
    by (simp add: f length_longText) (simp add: exampleAnalyzer_def number_005)
qed

text \<open>
  C8 as the claim states it fails: under the positive threshold 0.01 a paragraph of 101
  letters on which the scorer fails is not filtered out; it is emitted with the first
  label and the confidence 0.05.
\<close>

theorem scorer_failure_not_filtered:
  "0 < a_confidenceThreshold lowThresholdAnalyzer
   \<and> failingScorer longText (a_classificationLabels lowThresholdAnalyzer) = Inl InferenceError
   \<and> analyzeText (Inr (Some failingScorer)) lowThresholdAnalyzer exampleIds None longText =
       Inr [\<lparr>ident = js ''id'', ctype = js ''text'', content = longText, confidence = number 0.05,
             position = Some \<lparr>page = None, paragraph' = Some 0\<rparr>, tableData = None\<rparr>]"
proof (intro conjI)
  show "0 < a_confidenceThreshold lowThresholdAnalyzer"
    by (simp add: lowThresholdAnalyzer_def number_def number_hundredth)
  show f: "failingScorer longText (a_classificationLabels lowThresholdAnalyzer) = Inl InferenceError"
    by (simp add: failingScorer_def)
  have ne: "longText \<noteq> []" by (simp add: longText_def)
  have c: "classify (Inr (Some failingScorer)) longText (a_classificationLabels lowThresholdAnalyzer) =
             Inr [(js ''text'', 0)]"
    using classify_scorer_fails[of failingScorer longText "a_classificationLabels lowThresholdAnalyzer"
            InferenceError, OF f]
    by (simp add: lowThresholdAnalyzer_def)
  show "analyzeText (Inr (Some failingScorer)) lowThresholdAnalyzer exampleIds None longText =
       Inr [\<lparr>ident = js ''id'', ctype = js ''text'', content = longText, confidence = number 0.05,
             position = Some \<lparr>page = None, paragraph' = Some 0\<rparr>, tableData = None\<rparr>]"
    using ne
    by (simp add: analyzeText_paragraph normalizeText_longText length_longText c
                  calculateConfidence_zero exampleIds_def)
       (simp add: lowThresholdAnalyzer_def number_def number_hundredth number_twentieth
                  exampleIds_def)
qed

section \<open>Configuration checks\<close>

lemma threshold_rejected:
  assumes "t < 0 \<or> t > 1"
  shows "DocumentExtractor_new (c\<lparr>opt_confidenceThreshold := Some t\<rparr>) = Inl ZodError"
    and "updateConfig d (c\<lparr>opt_confidenceThreshold := Some t\<rparr>) = (Some ZodError, d)"
    and "setConfidenceThreshold an t = Inl ThresholdError"
  using assms
  by (auto simp: DocumentExtractor_new_def updateConfig_def ExtractorConfigSchema_parse_def
                 spread_def setConfidenceThreshold_def Let_def)

lemma setClassificationLabels_empty: "setClassificationLabels an [] = Inl EmptyLabelsError"
  by (simp add: setClassificationLabels_def)

lemma updateConfig_empty_labels:
  "fst (updateConfig d (c\<lparr>opt_classificationLabels := Some []\<rparr>)) \<noteq> None"
  by (auto simp: updateConfig_def setClassificationLabels_def Let_def
           split: sum.splits option.splits)

definition emptyLabelsConfig :: PartialConfig where
  "emptyLabelsConfig =
     \<lparr>opt_classificationLabels = Some [], opt_confidenceThreshold = None,
      opt_enableTableExtraction = None, opt_modelName = None\<rparr>"

text \<open>
  C9 fails for the constructor and an empty label list: the schema puts no lower bound on
  the number of labels, and the constructor of \<open>ContentAnalyzer\<close> does not go through
  \<open>setClassificationLabels\<close>, which would reject the list. The extractor is built, its
  analyzer holds no label, and \<open>analyzeText\<close> runs with it.
\<close>

theorem constructor_accepts_empty_labels:
  "DocumentExtractor_new emptyLabelsConfig =
     Inr \<lparr>config = \<lparr>classificationLabels = [], confidenceThreshold = 1 / 2,
                    enableTableExtraction = True,
                    modelName = js ''Xenova/distilbert-base-uncased-mnli''\<rparr>,
          analyzer = \<lparr>a_confidenceThreshold = 1 / 2, a_classificationLabels = []\<rparr>\<rparr>
   \<and> setClassificationLabels \<lparr>a_confidenceThreshold = 1 / 2, a_classificationLabels = []\<rparr> [] =
       Inl EmptyLabelsError
   \<and> analyzeText (Inr (Some steadyScorer))
        \<lparr>a_confidenceThreshold = 1 / 2, a_classificationLabels = []\<rparr> exampleIds None twoParagraphs =
       Inr []"
proof (intro conjI)
  show "DocumentExtractor_new emptyLabelsConfig =
     Inr \<lparr>config = \<lparr>classificationLabels = [], confidenceThreshold = 1 / 2,
                    enableTableExtraction = True,
                    modelName = js ''Xenova/distilbert-base-uncased-mnli''\<rparr>,
          analyzer = \<lparr>a_confidenceThreshold = 1 / 2, a_classificationLabels = []\<rparr>\<rparr>"
    by (simp add: DocumentExtractor_new_def ExtractorConfigSchema_parse_def emptyLabelsConfig_def)
  show "setClassificationLabels \<lparr>a_confidenceThreshold = 1 / 2, a_classificationLabels = []\<rparr> [] =
       Inl EmptyLabelsError"
    by (rule setClassificationLabels_empty)
  show "analyzeText (Inr (Some steadyScorer))
          \<lparr>a_confidenceThreshold = 1 / 2, a_classificationLabels = []\<rparr> exampleIds None twoParagraphs =
        Inr []"
    unfolding analyzeText_paragraph normalizeText_twoParagraphs
    by (simp add: js_def classify_def trim_def is_ws_def steadyScorer_def)
qed

section \<open>Splitting a value span\<close>

text \<open>
  The policy as the specification words it: the split on comma, semicolon or vertical bar
  is used iff it gives two or more values that are not empty after trimming; otherwise the
  span is split again on the words \<open>and\<close> and \<open>or\<close>.
\<close>

definition splitValues_spec :: "jsstring \<Rightarrow> jsstring list" where
  "splitValues_spec text =
     (let firstAttempt = filter (\<lambda>v. length v > 0) (map trim (split_rx delimPattern text))
      in if length firstAttempt \<ge> 2 then firstAttempt
         else filter (\<lambda>v. length v > 0) (map trim (split_rx conjPattern text)))"

definition is_delim :: "jschar \<Rightarrow> bool" where
  "is_delim c \<longleftrightarrow> c = 44 \<or> c = 59 \<or> c = 124"

lemma delimPattern_is_delim: "delimPattern = Chr is_delim"
  by (simp add: delimPattern_def is_delim_def[abs_def])

lemma split_go_Chr:
  "split_go (Chr P) cur (x # xs) =
     (if P x then rev cur # split_go (Chr P) [] xs else split_go (Chr P) (x # cur) xs)"
  by (simp add: match_here_Chr)

lemma split_go_Chr_length: "length (split_go (Chr P) cur s) = Suc (length (filter P s))"
  by (induction s arbitrary: cur) (simp_all add: match_here_Chr)

lemma split_rx_Chr_length: "length (split_rx (Chr P) s) = Suc (length (filter P s))"
  by (simp add: split_rx_def split_go_Chr_length match_here_Chr)

lemma split_delim_single:
  "length (split_rx delimPattern text) = 1 \<longleftrightarrow> \<not> (\<exists>c\<in>set text. is_delim c)"
  by (simp add: delimPattern_is_delim split_rx_Chr_length filter_empty_conv)

lemma splitValues_cases:
  "splitValues text =
     (if \<exists>c\<in>set text. is_delim c
      then filter (\<lambda>v. length v > 0) (map trim (split_rx delimPattern text))
      else filter (\<lambda>v. length v > 0) (map trim (split_rx conjPattern text)))"
  using split_delim_single[of "text"] by (simp add: splitValues_def Let_def)

lemma splitValues_trimmed: "v \<in> set (splitValues text) \<Longrightarrow> v \<noteq> [] \<and> trim v = v"
  by (auto simp: splitValues_cases trim_trim split: if_splits)

lemma extractFields_loop_vals:
  "f \<in> set (extractFields_loop s) \<Longrightarrow> vals f \<noteq> [] \<and> (\<exists>span. vals f = splitValues (trim span))"
proof (induction s arbitrary: f rule: extractFields_loop.induct)
  case (1 s)
  show ?case
  proof (cases "exec colonPattern s")
    case None
    with "1.prems" show ?thesis by (simp add: extractFields_loop_None)
  next
    case (Some r)
    obtain m s' c where r: "r = (m, s', c)" by (cases r)
    have e: "exec colonPattern s = Some (m, s', c)" using Some r by simp
    from "1.prems" consider
        "length (splitValues (trim (group c 2))) > 0"
        "f = \<lparr>key = trim (group c 1), vals = splitValues (trim (group c 2)),
               rawText = take (length m - length s') m\<rparr>"
      | "f \<in> set (extractFields_loop s')"
      unfolding extractFields_loop_Some[OF e] by (auto split: if_splits)
    then show ?thesis
    proof cases
      case 1
      then show ?thesis by auto
    next
      case 2
      from "1.IH"[OF e refl refl refl refl refl 2] show ?thesis .
    qed
  qed
qed

text \<open>
  C3, as the code has it. The split on comma, semicolon or vertical bar is used iff it
  gives two or more pieces, whether or not they are empty after trimming, that is iff the
  span holds one of the three code units; a span that holds none of them is split on
  \<open>and\<close> and \<open>or\<close>. The values that are empty after trimming are dropped in both cases,
  and every field that \<open>extractFields\<close> records has at least one value.
\<close>

theorem splitValues_policy:
  "splitValues text =
     (if \<exists>c\<in>set text. c = 44 \<or> c = 59 \<or> c = 124
      then filter (\<lambda>v. length v > 0) (map trim (split_rx delimPattern text))
      else filter (\<lambda>v. length v > 0) (map trim (split_rx conjPattern text)))
   \<and> (length (split_rx delimPattern text) \<ge> 2 \<longleftrightarrow> (\<exists>c\<in>set text. c = 44 \<or> c = 59 \<or> c = 124))
   \<and> (\<forall>v\<in>set (splitValues text). v \<noteq> [] \<and> trim v = v)
   \<and> (\<forall>f\<in>set (extractFields t). vals f \<noteq> [] \<and> (\<exists>span. vals f = splitValues (trim span)))"
proof (intro conjI)
  show "splitValues text =
     (if \<exists>c\<in>set text. c = 44 \<or> c = 59 \<or> c = 124
      then filter (\<lambda>v. length v > 0) (map trim (split_rx delimPattern text))
      else filter (\<lambda>v. length v > 0) (map trim (split_rx conjPattern text)))"
    using splitValues_cases[of "text"] by (simp add: is_delim_def)
  show "length (split_rx delimPattern text) \<ge> 2 \<longleftrightarrow> (\<exists>c\<in>set text. c = 44 \<or> c = 59 \<or> c = 124)"
  proof -
    have "length (split_rx delimPattern text) \<ge> 2 \<longleftrightarrow> filter is_delim text \<noteq> []"
      by (cases "filter is_delim text") (simp_all add: delimPattern_is_delim split_rx_Chr_length)
    also have "\<dots> \<longleftrightarrow> (\<exists>c\<in>set text. is_delim c)" by (simp add: filter_empty_conv)
    finally show ?thesis by (simp add: is_delim_def)
  qed
  show "\<forall>v\<in>set (splitValues text). v \<noteq> [] \<and> trim v = v"
    using splitValues_trimmed by blast
  show "\<forall>f\<in>set (extractFields t). vals f \<noteq> [] \<and> (\<exists>span. vals f = splitValues (trim span))"
    unfolding extractFields_def using extractFields_loop_vals by blast
qed

lemma conj_example_values:
  "splitValues (js ''a and b,'') = [js ''a and b'']"
  "splitValues (js ''a and b'') = [js ''a'', js ''b'']"
  "splitValues (js ''a, b'') = [js ''a'', js ''b'']"
  "splitValues_spec (js ''a and b,'') = [js ''a'', js ''b,'']"
  by (simp_all add: split_eval splitValues_spec_def rx_eval)

lemma conj_example_exec:
  "exec colonPattern (js ''k: a and b,'') = Some (js ''k: a and b,'', [], [(2, js ''a and b,''), (1, js ''k'')])"
  "exec colonPattern (js ''k: a, b'') = Some (js ''k: a, b'', [], [(2, js ''a, b''), (1, js ''k'')])"
  by (simp_all add: colonPattern_def rx_eval)

lemma conj_example_trim:
  "trim (js ''a and b,'') = js ''a and b,''" "trim (js ''k'') = js ''k''" "trim (js ''a, b'') = js ''a, b''"
  by (simp_all add: rx_eval)

lemma conj_example_fields:
  "extractFields (js ''k: a and b,'') =
     [\<lparr>key = js ''k'', vals = [js ''a and b''], rawText = js ''k: a and b,''\<rparr>]"
  "extractFields (js ''k: a, b'') =
     [\<lparr>key = js ''k'', vals = [js ''a'', js ''b''], rawText = js ''k: a, b''\<rparr>]"
  unfolding extractFields_def
  by (simp_all add: extractFields_loop_Some[OF conj_example_exec(1)]
        extractFields_loop_Some[OF conj_example_exec(2)]
        extractFields_loop_None[OF exec_colonPattern_Nil] group_def conj_example_trim
        conj_example_values)

theorem splitValues_policy_witness:
  "splitValues (js ''a, b'') = [js ''a'', js ''b'']
   \<and> length (split_rx delimPattern (js ''a, b'')) \<ge> 2
   \<and> trim (js ''a'') = js ''a'' \<and> trim (js ''b'') = js ''b''
   \<and> vals \<lparr>key = js ''k'', vals = [js ''a'', js ''b''], rawText = js ''k: a, b''\<rparr> \<noteq> []"
proof -
  note p = splitValues_policy[of "js ''a, b''" "js ''k: a, b''"]
  have d: "(\<exists>c\<in>set (js ''a, b''). c = 44 \<or> c = 59 \<or> c = 124)" by (simp add: js_def)
  from p d have 1: "length (split_rx delimPattern (js ''a, b'')) \<ge> 2" by simp
  from p have "\<forall>v\<in>set (splitValues (js ''a, b'')). v \<noteq> [] \<and> trim v = v" by (elim conjE)
  then have 2: "trim (js ''a'') = js ''a''" "trim (js ''b'') = js ''b''"
    unfolding conj_example_values(3) by simp_all
  from p have "\<forall>f\<in>set (extractFields (js ''k: a, b'')). vals f \<noteq> [] \<and>
                 (\<exists>span. vals f = splitValues (trim span))" by (elim conjE)
  then have 3: "vals \<lparr>key = js ''k'', vals = [js ''a'', js ''b''], rawText = js ''k: a, b''\<rparr> \<noteq> []"
    unfolding conj_example_fields(2) by simp
  from 1 2 3 conj_example_values(3) show ?thesis by (intro conjI)
qed

text \<open>
  C3 as the claim states it fails on the span \<open>a and b,\<close>, which \<open>extractFields\<close> captures
  from \<open>k: a and b,\<close>: the first split gives exactly one value that is not empty, so the
  claim has the span split again on \<open>and\<close>; the code keeps the one value \<open>a and b\<close>.
\<close>

theorem splitValues_trailing_delimiter:
  "filter (\<lambda>v. length v > 0) (map trim (split_rx delimPattern (js ''a and b,''))) = [js ''a and b'']
   \<and> splitValues_spec (js ''a and b,'') = [js ''a'', js ''b,'']
   \<and> splitValues (js ''a and b,'') = [js ''a and b'']
   \<and> map vals (extractFields (js ''k: a and b,'')) = [[js ''a and b'']]
   \<and> splitValues (js ''a and b,'') \<noteq> splitValues_spec (js ''a and b,'')"
proof -
  have "filter (\<lambda>v. length v > 0) (map trim (split_rx delimPattern (js ''a and b,''))) = [js ''a and b'']"
    by (simp add: split_eval rx_eval)
  then show ?thesis by (simp add: conj_example_values conj_example_fields)
qed

section \<open>What a match can consume\<close>

lemma mem_Chr:
  "m \<in> set (rmatch (Chr P) s c) \<longleftrightarrow> (\<exists>x. s = x # fst m \<and> P x) \<and> snd m = c"
  by (cases s; cases m) auto

lemma mem_Seq:
  "m \<in> set (rmatch (Seq a b) s c) \<longleftrightarrow> (\<exists>m1\<in>set (rmatch a s c). m \<in> set (rmatch b (fst m1) (snd m1)))"
  by auto

lemma mem_Group:
  "m \<in> set (rmatch (Group n a) s c) \<longleftrightarrow>
     (\<exists>m1\<in>set (rmatch a s c). m = (fst m1, (n, take (length s - length (fst m1)) s) # snd m1))"
  by auto

lemma rmatch_suffix: "m \<in> set (rmatch r s c) \<Longrightarrow> \<exists>p. s = p @ fst m"
proof (induction r s c arbitrary: m rule: rmatch.induct)
  case (1 P s c)
  then obtain x where "s = x # fst m" unfolding mem_Chr by blast
  then have "s = [x] @ fst m" by simp
  then show ?case by blast
next
  case (2 a b s c)
  from "2.prems" obtain m1 where m1: "m1 \<in> set (rmatch a s c)"
    and m: "m \<in> set (rmatch b (fst m1) (snd m1))" unfolding mem_Seq by blast
  from "2.IH"(1)[OF m1] obtain p where p: "s = p @ fst m1" by blast
  from "2.IH"(2)[OF m1 m] obtain q where q: "fst m1 = q @ fst m" by blast
  have "s = (p @ q) @ fst m" using p q by simp
  then show ?case by blast
next
  case (3 a b s c)
  from "3.prems" have "m \<in> set (rmatch a s c) \<or> m \<in> set (rmatch b s c)" by simp
  then show ?case using "3.IH" by blast
next
  case (4 a s c)
  from "4.prems" show ?case
    unfolding rmatch_Star_iff[of m a s c]
  proof (elim disjE bexE conjE)
    assume "m = (s, c)"
    then have "s = [] @ fst m" by simp
    then show ?thesis by blast
  next
    fix r assume r: "r \<in> set (rmatch a s c)" and lt: "length (fst r) < length s"
      and m: "m \<in> set (rmatch (Star a) (fst r) (snd r))"
    from "4.IH"(1)[OF r] obtain p where p: "s = p @ fst r" by blast
    from "4.IH"(2)[OF r lt m] obtain q where q: "fst r = q @ fst m" by blast
    have "s = (p @ q) @ fst m" using p q by simp
    then show ?thesis by blast
  qed
next
  case (5 n a s c)
  from "5.prems" obtain m1 where m1: "m1 \<in> set (rmatch a s c)" and "fst m = fst m1"
    unfolding mem_Group by auto
  with "5.IH"[OF m1] show ?case by simp
qed

lemma mem_Star_Chr:
  "m \<in> set (rmatch (Star (Chr P)) s c) \<Longrightarrow>
   snd m = c \<and> (\<exists>p. s = p @ fst m \<and> (\<forall>x\<in>set p. P x))"
proof (induction s arbitrary: m)
  case Nil
  then have "m = ([], c)" unfolding rmatch_Star_iff[of m "Chr P" "[]" c] by simp
  then show ?case by simp
next
  case (Cons x xs)
  from Cons.prems consider "m = (x # xs, c)"
    | r where "r \<in> set (rmatch (Chr P) (x # xs) c)" "m \<in> set (rmatch (Star (Chr P)) (fst r) (snd r))"
    unfolding rmatch_Star_iff[of m "Chr P" "x # xs" c] by blast
  then show ?case
  proof cases
    case 1
    show ?thesis by (intro conjI exI[of _ "[]"]) (simp_all add: 1)
  next
    case 2
    from 2(1) have r': "fst r = xs" "snd r = c" "P x" unfolding mem_Chr by auto
    have "m \<in> set (rmatch (Star (Chr P)) xs c)" using 2(2) r' by simp
    from Cons.IH[OF this] obtain p where p: "snd m = c" "xs = p @ fst m" "\<forall>x\<in>set p. P x" by blast
    show ?thesis by (intro conjI exI[of _ "x # p"]) (simp_all add: p r')
  qed
qed

lemma mem_Plus_Chr:
  "m \<in> set (rmatch (Plus (Chr P)) s c) \<Longrightarrow>
   snd m = c \<and> (\<exists>p. p \<noteq> [] \<and> s = p @ fst m \<and> (\<forall>x\<in>set p. P x))"
proof -
  assume "m \<in> set (rmatch (Plus (Chr P)) s c)"
  then obtain m1 where m1: "m1 \<in> set (rmatch (Chr P) s c)"
    and m: "m \<in> set (rmatch (Star (Chr P)) (fst m1) (snd m1))"
    unfolding Plus_def mem_Seq by blast
  from m1 obtain x where x: "s = x # fst m1" "P x" "snd m1 = c" by (auto simp: mem_Chr)
  from mem_Star_Chr[OF m] obtain p where p: "snd m = snd m1" "fst m1 = p @ fst m" "\<forall>x\<in>set p. P x"
    by blast
  have "snd m = c" using p(1) x(3) by simp
  moreover have "\<exists>q. q \<noteq> [] \<and> s = q @ fst m \<and> (\<forall>y\<in>set q. P y)"
    by (rule exI[of _ "x # p"]) (simp add: x p)
  ultimately show ?thesis by simp
qed

section \<open>The shape of keys and values\<close>

text \<open>
  What \<open>(?:\s+\w+)*\<close> matches: groups of white space followed by word characters.
\<close>

inductive key_tail :: "jsstring \<Rightarrow> bool" where
  key_tail_Nil: "key_tail []"
| key_tail_Cons:
    "sp \<noteq> [] \<Longrightarrow> \<forall>x\<in>set sp. is_ws x \<Longrightarrow> w \<noteq> [] \<Longrightarrow> \<forall>x\<in>set w. is_word x \<Longrightarrow>
     key_tail r \<Longrightarrow> key_tail (sp @ w @ r)"

text \<open>What \<open>\w+(?:\s+\w+)*\<close> matches: words separated by white space.\<close>

definition is_key :: "jsstring \<Rightarrow> bool" where
  "is_key k \<longleftrightarrow> (\<exists>w r. k = w @ r \<and> w \<noteq> [] \<and> (\<forall>x\<in>set w. is_word x) \<and> key_tail r)"

definition labelPattern :: rx where
  "labelPattern = Seq (Plus (Chr is_word)) (Star (Seq (Plus (Chr is_ws)) (Plus (Chr is_word))))"

definition spanPattern :: rx where
  "spanPattern = Plus (Chr (\<lambda>c. c \<noteq> 59 \<and> c \<noteq> 10))"

lemma colonPattern_parts:
  "colonPattern =
     Seq (Group 1 labelPattern)
       (Seq (Star (Chr is_ws)) (Seq (Lit 58) (Seq (Star (Chr is_ws)) (Group 2 spanPattern))))"
  by (simp add: colonPattern_def labelPattern_def spanPattern_def)

lemma word_not_ws: "is_word x \<Longrightarrow> \<not> is_ws x"
  by (auto simp: is_word_def is_ws_def)

lemma mem_tail:
  "m \<in> set (rmatch (Star (Seq (Plus (Chr is_ws)) (Plus (Chr is_word)))) s c) \<Longrightarrow>
   snd m = c \<and> (\<exists>p. s = p @ fst m \<and> key_tail p)"
proof (induction "length s" arbitrary: s m rule: less_induct)
  case less
  let ?it = "Seq (Plus (Chr is_ws)) (Plus (Chr is_word))"
  from less.prems consider "m = (s, c)"
    | r where "r \<in> set (rmatch ?it s c)" "length (fst r) < length s"
        "m \<in> set (rmatch (Star ?it) (fst r) (snd r))"
    unfolding rmatch_Star_iff[of m ?it s c] by blast
  then show ?case
  proof cases
    case 1
    show ?thesis by (intro conjI exI[of _ "[]"]) (simp_all add: 1 key_tail_Nil)
  next
    case 2
    from 2(1) obtain m1 where m1: "m1 \<in> set (rmatch (Plus (Chr is_ws)) s c)"
      and r: "r \<in> set (rmatch (Plus (Chr is_word)) (fst m1) (snd m1))"
      unfolding mem_Seq by blast
    from mem_Plus_Chr[OF m1] obtain sp where sp: "snd m1 = c" "sp \<noteq> []" "s = sp @ fst m1"
      "\<forall>x\<in>set sp. is_ws x" by blast
    from mem_Plus_Chr[OF r] obtain w where w: "snd r = snd m1" "w \<noteq> []" "fst m1 = w @ fst r"
      "\<forall>x\<in>set w. is_word x" by blast
    have "m \<in> set (rmatch (Star ?it) (fst r) c)" using 2(3) w(1) sp(1) by simp
    from less.hyps[OF 2(2) this] obtain p where p: "snd m = c" "fst r = p @ fst m" "key_tail p"
      by blast
    have "key_tail (sp @ w @ p)" using sp(2,4) w(2,4) p(3) by (rule key_tail_Cons)
    moreover have "s = (sp @ w @ p) @ fst m" using sp(3) w(3) p(2) by simp
    ultimately show ?thesis using p(1) by (intro conjI exI[of _ "sp @ w @ p"])
  qed
qed

lemma mem_label:
  "m \<in> set (rmatch labelPattern s c) \<Longrightarrow> snd m = c \<and> (\<exists>k. s = k @ fst m \<and> is_key k)"
proof -
  assume "m \<in> set (rmatch labelPattern s c)"
  then obtain m1 where m1: "m1 \<in> set (rmatch (Plus (Chr is_word)) s c)"
    and m: "m \<in> set (rmatch (Star (Seq (Plus (Chr is_ws)) (Plus (Chr is_word)))) (fst m1) (snd m1))"
    unfolding labelPattern_def mem_Seq by blast
  from mem_Plus_Chr[OF m1] obtain w where w: "snd m1 = c" "w \<noteq> []" "s = w @ fst m1"
    "\<forall>x\<in>set w. is_word x" by blast
  from mem_tail[OF m] obtain p where p: "snd m = snd m1" "fst m1 = p @ fst m" "key_tail p" by blast
  have "is_key (w @ p)" unfolding is_key_def using w(2,4) p(3) by blast
  moreover have "s = (w @ p) @ fst m" using w(3) p(2) by simp
  moreover have "snd m = c" using p(1) w(1) by simp
  ultimately show ?thesis by (intro conjI exI[of _ "w @ p"])
qed

text \<open>The shape of the two captures of every match of \<open>colonPattern\<close>.\<close>

lemma mem_colonPattern:
  assumes "m \<in> set (rmatch colonPattern s [])"
  shows "\<exists>k v. is_key k \<and> v \<noteq> [] \<and> (\<forall>x\<in>set v. x \<noteq> 59 \<and> x \<noteq> 10) \<and>
               snd m = [(2, v), (1, k)]"
proof -
  from assms obtain m1 m2 m3 m4 where
    m1: "m1 \<in> set (rmatch (Group 1 labelPattern) s [])"
    and m2: "m2 \<in> set (rmatch (Star (Chr is_ws)) (fst m1) (snd m1))"
    and m3: "m3 \<in> set (rmatch (Lit 58) (fst m2) (snd m2))"
    and m4: "m4 \<in> set (rmatch (Star (Chr is_ws)) (fst m3) (snd m3))"
    and m: "m \<in> set (rmatch (Group 2 spanPattern) (fst m4) (snd m4))"
    unfolding colonPattern_parts mem_Seq by blast
  from m1 obtain l where l: "l \<in> set (rmatch labelPattern s [])"
    and m1': "m1 = (fst l, (1, take (length s - length (fst l)) s) # snd l)"
    unfolding mem_Group by blast
  from mem_label[OF l] obtain k where k: "snd l = []" "s = k @ fst l" "is_key k" by blast
  have c1: "snd m1 = [(1, k)]" using m1' k(1,2) by simp
  have c2: "snd m2 = [(1, k)]" using mem_Star_Chr[OF m2] c1 by simp
  have c3: "snd m3 = [(1, k)]" using m3 c2 unfolding Lit_def mem_Chr by simp
  have c4: "snd m4 = [(1, k)]" using mem_Star_Chr[OF m4] c3 by simp
  from m obtain n where n: "n \<in> set (rmatch spanPattern (fst m4) (snd m4))"
    and m': "m = (fst n, (2, take (length (fst m4) - length (fst n)) (fst m4)) # snd n)"
    unfolding mem_Group by blast
  from mem_Plus_Chr[OF n[unfolded spanPattern_def]]
  obtain v where v: "snd n = snd m4" "v \<noteq> []" "fst m4 = v @ fst n"
    "\<forall>x\<in>set v. x \<noteq> 59 \<and> x \<noteq> 10" by blast
  have "snd m = [(2, v), (1, k)]" using m' v(1,3) c4 by simp
  with k(3) v(2,4) show ?thesis by (intro exI[of _ k] exI[of _ v]) simp
qed

lemma key_tail_ends: "key_tail r \<Longrightarrow> r = [] \<or> (is_ws (hd r) \<and> is_word (last r))"
proof (induction rule: key_tail.induct)
  case key_tail_Nil
  show ?case by simp
next
  case (key_tail_Cons sp w r)
  have "hd (sp @ w @ r) = hd sp" using key_tail_Cons(1) by simp
  moreover have "hd sp \<in> set sp" using key_tail_Cons(1) by simp
  moreover have "last (sp @ w @ r) = (if r = [] then last w else last r)"
    using key_tail_Cons(3) by simp
  moreover have "last w \<in> set w" using key_tail_Cons(3) by simp
  ultimately show ?case using key_tail_Cons(2,4,6) by auto
qed

lemma is_key_ends: "is_key k \<Longrightarrow> k \<noteq> [] \<and> is_word (hd k) \<and> is_word (last k)"
proof -
  assume "is_key k"
  then obtain w r where k: "k = w @ r" "w \<noteq> []" "\<forall>x\<in>set w. is_word x" "key_tail r"
    unfolding is_key_def by blast
  have "hd k = hd w" "hd w \<in> set w" "last w \<in> set w" using k(1,2) by simp_all
  moreover have "last k = (if r = [] then last w else last r)" using k(1,2) by simp
  ultimately show ?thesis using k(1,2,3) key_tail_ends[OF k(4)] by auto
qed

lemma is_key_trim: "is_key k \<Longrightarrow> trim k = k"
  using is_key_ends[of k] by (intro trim_id) (auto dest: word_not_ws)

text \<open>
  The shape of a value: not empty, no white space at either end, and none of comma,
  semicolon, vertical bar and line feed inside.
\<close>

definition is_value :: "jsstring \<Rightarrow> bool" where
  "is_value v \<longleftrightarrow>
     v \<noteq> [] \<and> \<not> is_ws (hd v) \<and> \<not> is_ws (last v) \<and> (\<forall>x\<in>set v. \<not> is_delim x \<and> x \<noteq> 10)"

lemma match_here_suffix: "match_here r s = Some (s', c) \<Longrightarrow> \<exists>p. s = p @ s'"
  using rmatch_suffix[of "(s', c)" r s "[]"]
  by (auto simp: match_here_def split: list.splits)

lemma split_go_set: "p \<in> set (split_go r cur s) \<Longrightarrow> set p \<subseteq> set cur \<union> set s"
proof (induction r cur s arbitrary: p rule: split_go.induct)
  case (1 r cur)
  then show ?case by simp
next
  case (2 r cur x xs)
  show ?case
  proof (cases "match_here r (x # xs)")
    case None
    with "2.prems" have "p \<in> set (split_go r (x # cur) xs)" by simp
    from "2.IH"(1)[OF None this] show ?thesis by auto
  next
    case (Some a)
    obtain s' c where a: "a = (s', c)" by (cases a)
    from match_here_suffix[of r "x # xs" s' c] Some a obtain q where "x # xs = q @ s'" by auto
    then have "set (x # xs) = set q \<union> set s'" by (metis set_append)
    then have sub: "set s' \<subseteq> set (x # xs)" by blast
    show ?thesis
    proof (cases "length s' < length (x # xs)")
      case True
      with "2.prems" Some a have "p = rev cur \<or> p \<in> set (split_go r [] s')" by simp
      then show ?thesis
      proof
        assume "p = rev cur"
        then show ?thesis by auto
      next
        assume "p \<in> set (split_go r [] s')"
        from "2.IH"(2)[OF Some a[symmetric] True this] sub show ?thesis by auto
      qed
    next
      case False
      show ?thesis
      proof (cases "cur = []")
        case True
        with "2.prems" Some a False have "p \<in> set (split_go r [x] xs)" by simp
        from "2.IH"(3)[OF Some a[symmetric] False True this] show ?thesis by auto
      next
        case nonempty: False
        with "2.prems" Some a False have "p = rev cur \<or> p \<in> set (split_go r [] (x # xs))" by simp
        then show ?thesis
        proof
          assume "p = rev cur"
          then show ?thesis by auto
        next
          assume "p \<in> set (split_go r [] (x # xs))"
          from "2.IH"(4)[OF Some a[symmetric] False nonempty this] show ?thesis by auto
        qed
      qed
    qed
  qed
qed

lemma split_rx_set: "p \<in> set (split_rx r s) \<Longrightarrow> set p \<subseteq> set s"
  using split_go_set[of p r "[]" s] by (auto simp: split_rx_def split: if_splits option.splits)

lemma split_go_Chr_pieces:
  "p \<in> set (split_go (Chr P) cur s) \<Longrightarrow> \<forall>x\<in>set p. x \<in> set cur \<or> \<not> P x"
proof (induction s arbitrary: cur p)
  case Nil
  then show ?case by simp
next
  case (Cons y ys)
  show ?case
  proof (cases "P y")
    case True
    with Cons.prems have "p = rev cur \<or> p \<in> set (split_go (Chr P) [] ys)"
      unfolding split_go_Chr by simp
    then show ?thesis using Cons.IH[of p "[]"] by auto
  next
    case False
    with Cons.prems have "p \<in> set (split_go (Chr P) (y # cur) ys)" unfolding split_go_Chr by simp
    from Cons.IH[OF this] False show ?thesis by auto
  qed
qed

lemma split_rx_Chr_pieces: "p \<in> set (split_rx (Chr P) s) \<Longrightarrow> \<forall>x\<in>set p. \<not> P x"
  using split_go_Chr_pieces[of p P "[]" s]
  by (auto simp: split_rx_def match_here_Chr split: if_splits)

lemma trimmed_ends: "trim p \<noteq> [] \<Longrightarrow> \<not> is_ws (hd (trim p)) \<and> \<not> is_ws (last (trim p))"
  using trim_ends[of p] by simp

lemma splitValues_shape:
  assumes "10 \<notin> set t" and "v \<in> set (splitValues t)"
  shows "is_value v"
proof (cases "\<exists>c\<in>set t. is_delim c")
  case True
  with assms(2) obtain p where p: "p \<in> set (split_rx delimPattern t)" "v = trim p" "v \<noteq> []"
    by (auto simp: splitValues_cases)
  have "set v \<subseteq> set p" using p(2) set_trim by simp
  moreover have "set p \<subseteq> set t" using split_rx_set[OF p(1)] .
  moreover have "\<forall>x\<in>set p. \<not> is_delim x"
    using split_rx_Chr_pieces[of p is_delim t] p(1) by (simp add: delimPattern_is_delim)
  ultimately have "\<forall>x\<in>set v. \<not> is_delim x \<and> x \<noteq> 10" using assms(1) by auto
  with p(2,3) trimmed_ends[of p] show ?thesis by (simp add: is_value_def)
next
  case False
  with assms(2) obtain p where p: "p \<in> set (split_rx conjPattern t)" "v = trim p" "v \<noteq> []"
    by (auto simp: splitValues_cases)
  have "set v \<subseteq> set p" using p(2) set_trim by simp
  moreover have "set p \<subseteq> set t" using split_rx_set[OF p(1)] .
  ultimately have "\<forall>x\<in>set v. \<not> is_delim x \<and> x \<noteq> 10" using assms(1) False by auto
  with p(2,3) trimmed_ends[of p] show ?thesis by (simp add: is_value_def)
qed

text \<open>A key with its values, as a field or an entry of the merged table may hold them.\<close>

definition good_entry :: "jsstring \<times> jsstring list \<Rightarrow> bool" where
  "good_entry e \<longleftrightarrow> is_key (fst e) \<and> snd e \<noteq> [] \<and> (\<forall>v\<in>set (snd e). is_value v)"

lemma exec_colonPattern_caps:
  assumes "exec colonPattern s = Some (m, s', c)"
  shows "\<exists>k v. is_key k \<and> v \<noteq> [] \<and> (\<forall>x\<in>set v. x \<noteq> 59 \<and> x \<noteq> 10) \<and> c = [(2, v), (1, k)]"
proof -
  from exec_length[OF assms] have "match_here colonPattern m = Some (s', c)" by simp
  then have "(s', c) \<in> set (rmatch colonPattern m [])"
    by (auto simp: match_here_def split: list.splits)
  from mem_colonPattern[OF this] show ?thesis by simp
qed

lemma extractFields_loop_good:
  "f \<in> set (extractFields_loop s) \<Longrightarrow> good_entry (key f, vals f)"
proof (induction s arbitrary: f rule: extractFields_loop.induct)
  case (1 s)
  show ?case
  proof (cases "exec colonPattern s")
    case None
    with "1.prems" show ?thesis by (simp add: extractFields_loop_None)
  next
    case (Some a)
    obtain m s' c where a: "a = (m, s', c)" by (cases a)
    have e: "exec colonPattern s = Some (m, s', c)" using Some a by simp
    from "1.prems" consider
        "length (splitValues (trim (group c 2))) > 0"
        "f = \<lparr>key = trim (group c 1), vals = splitValues (trim (group c 2)),
               rawText = take (length m - length s') m\<rparr>"
      | "f \<in> set (extractFields_loop s')"
      unfolding extractFields_loop_Some[OF e] by (auto split: if_splits)
    then show ?thesis
    proof cases
      case 1
      from exec_colonPattern_caps[OF e] obtain k v where kv: "is_key k"
        "\<forall>x\<in>set v. x \<noteq> 59 \<and> x \<noteq> 10" "c = [(2, v), (1, k)]" by blast
      have g: "group c 1 = k" "group c 2 = v" using kv(3) by (simp_all add: group_def)
      have "10 \<notin> set (trim v)" using kv(2) set_trim[of v] by auto
      then have "\<forall>u\<in>set (splitValues (trim v)). is_value u" using splitValues_shape by blast
      with 1 kv(1) g show ?thesis by (simp add: good_entry_def is_key_trim)
    next
      case 2
      from "1.IH"[OF e refl refl refl refl refl 2] show ?thesis .
    qed
  qed
qed

section \<open>Merging\<close>

lemma add_unique_set: "set (add_unique e vs) = set e \<union> set vs"
  unfolding add_unique_def by (induction vs arbitrary: e) auto

lemma merge_field_good:
  assumes "\<forall>e\<in>set m. good_entry e" and "distinct (map fst m)" and "good_entry (key f, vals f)"
  shows "(\<forall>e\<in>set (merge_field m f). good_entry e) \<and> distinct (map fst (merge_field m f))"
proof (cases "map_of m (key f)")
  case None
  then have "key f \<notin> fst ` set m" by (simp add: map_of_eq_None_iff)
  with None assms show ?thesis by (auto simp: merge_field_def)
next
  case (Some existing)
  let ?g = "\<lambda>(k, vs). if k = key f then (k, add_unique vs (vals f)) else (k, vs)"
  have m': "merge_field m f = map ?g m" using Some by (simp add: merge_field_def)
  have mf: "map fst (map ?g m) = map fst m" by (induction m) auto
  have d: "distinct (map fst (merge_field m f))" unfolding m' mf by (rule assms(2))
  have "good_entry (?g e)" if "e \<in> set m" for e
  proof -
    obtain k vs where e: "e = (k, vs)" by (cases e)
    have ge: "good_entry (k, vs)" using assms(1) that e by blast
    show ?thesis
    proof (cases "k = key f")
      case True
      have "set (add_unique vs (vals f)) = set vs \<union> set (vals f)" by (rule add_unique_set)
      moreover from this have "add_unique vs (vals f) \<noteq> []" using ge
        by (auto simp: good_entry_def)
      ultimately show ?thesis using ge assms(3) True e by (auto simp: good_entry_def)
    next
      case False
      then show ?thesis using ge e by simp
    qed
  qed
  then have "\<forall>e\<in>set (merge_field m f). good_entry e" using m' by auto
  with d show ?thesis by simp
qed

lemma foldl_merge_good:
  "\<forall>e\<in>set m. good_entry e \<Longrightarrow> distinct (map fst m) \<Longrightarrow>
   \<forall>f\<in>set fs. good_entry (key f, vals f) \<Longrightarrow>
   (\<forall>e\<in>set (foldl merge_field m fs). good_entry e) \<and> distinct (map fst (foldl merge_field m fs))"
proof (induction fs arbitrary: m)
  case Nil
  then show ?case by simp
next
  case (Cons f fs)
  have "good_entry (key f, vals f)" using Cons.prems(3) by simp
  from merge_field_good[OF Cons.prems(1,2) this] Cons.prems(3) Cons.IH[of "merge_field m f"]
  show ?case by simp
qed

lemma merged_good:
  "(\<forall>e\<in>set (mergeFields (extractFields t)). good_entry e) \<and>
   distinct (map fst (mergeFields (extractFields t)))"
  unfolding mergeFields_def extractFields_def
  by (rule foldl_merge_good) (simp_all add: extractFields_loop_good)

text \<open>Merging fields whose keys are all different keeps them as they are.\<close>

lemma foldl_merge_distinct:
  "distinct (map fst (m @ es)) \<Longrightarrow>
   foldl merge_field m (map (\<lambda>e. \<lparr>key = fst e, vals = snd e, rawText = raw e\<rparr>) es) = m @ es"
proof (induction es arbitrary: m)
  case Nil
  show ?case by simp
next
  case (Cons e es)
  have "fst e \<notin> fst ` set m" using Cons.prems by auto
  then have "map_of m (fst e) = None" by (simp add: map_of_eq_None_iff)
  then have "merge_field m \<lparr>key = fst e, vals = snd e, rawText = raw e\<rparr> = m @ [e]"
    by (simp add: merge_field_def)
  moreover have "distinct (map fst ((m @ [e]) @ es))" using Cons.prems by simp
  ultimately show ?case using Cons.IH[of "m @ [e]"] by simp
qed

section \<open>Writing the merged table back as text\<close>

text \<open>One line \<open>key: v1, v2, v3\<close> for each key, the lines separated by line feeds.\<close>

definition serializeLine :: "jsstring \<times> jsstring list \<Rightarrow> jsstring" where
  "serializeLine e = fst e @ [58, 32] @ join [44, 32] (snd e)"

definition serialize :: "merged \<Rightarrow> jsstring" where
  "serialize m = join [10] (map serializeLine m)"

lemma join_Cons: "join sep (x # xs) = x @ (if xs = [] then [] else sep @ join sep xs)"
  by (cases xs) simp_all

lemma dropWhile_run: "\<forall>x\<in>set a. P x \<Longrightarrow> b = [] \<or> \<not> P (hd b) \<Longrightarrow> dropWhile P (a @ b) = b"
proof (induction a)
  case Nil
  then show ?case by (cases b) auto
next
  case (Cons x a)
  then show ?case by simp
qed

lemma first_tail:
  "key_tail p \<Longrightarrow> rest \<noteq> [] \<Longrightarrow> \<not> is_ws (hd rest) \<Longrightarrow> \<not> is_word (hd rest) \<Longrightarrow>
   first (Star (Seq (Plus (Chr is_ws)) (Plus (Chr is_word)))) (p @ rest) c = Some (rest, c)"
proof (induction rule: key_tail.induct)
  case key_tail_Nil
  have "first (Plus (Chr is_ws)) rest c = None"
    using key_tail_Nil by (cases rest) (simp_all add: first_Plus_Chr)
  then have "first (Seq (Plus (Chr is_ws)) (Plus (Chr is_word))) rest c = None"
    by (rule first_Seq_None)
  from first_Star_stop[OF this] show ?case by simp
next
  case (key_tail_Cons sp w r)
  obtain y ys where sp: "sp = y # ys" using key_tail_Cons(1) by (cases sp) auto
  obtain z zs where w: "w = z # zs" using key_tail_Cons(3) by (cases w) auto
  have nw: "\<not> is_ws z" using key_tail_Cons(4) w by (simp add: word_not_ws)
  have "dropWhile is_ws (ys @ (w @ r @ rest)) = w @ r @ rest"
    using key_tail_Cons(2) sp w nw by (intro dropWhile_run) simp_all
  then have 1: "first (Plus (Chr is_ws)) ((sp @ w @ r) @ rest) c = Some (w @ r @ rest, c)"
    using key_tail_Cons(2) sp by (simp add: first_Plus_Chr)
  have "r @ rest = [] \<or> \<not> is_word (hd (r @ rest))"
    using key_tail_ends[OF key_tail_Cons(5)] key_tail_Cons(7,9)
    by (auto simp: hd_append dest: word_not_ws)
  then have "dropWhile is_word (zs @ (r @ rest)) = r @ rest"
    using key_tail_Cons(4) w by (intro dropWhile_run) simp_all
  then have 2: "first (Plus (Chr is_word)) (w @ r @ rest) c = Some (r @ rest, c)"
    using key_tail_Cons(4) w by (simp add: first_Plus_Chr)
  have 3: "first (Seq (Plus (Chr is_ws)) (Plus (Chr is_word))) ((sp @ w @ r) @ rest) c =
           Some (r @ rest, c)"
    by (rule first_Seq[OF 1]) (simp add: 2)
  have 4: "first (Star (Seq (Plus (Chr is_ws)) (Plus (Chr is_word)))) (r @ rest) c = Some (rest, c)"
    using key_tail_Cons(6)[OF key_tail_Cons(7,8,9)] .
  show ?case
    by (rule first_Star_step[OF 3]) (simp_all add: 4 sp w)
qed

lemma first_label:
  assumes "is_key k" and "rest \<noteq> []" and "\<not> is_ws (hd rest)" and "\<not> is_word (hd rest)"
  shows "first labelPattern (k @ rest) c = Some (rest, c)"
proof -
  from assms(1) obtain w r where k: "k = w @ r" "w \<noteq> []" "\<forall>x\<in>set w. is_word x" "key_tail r"
    unfolding is_key_def by blast
  obtain z zs where w: "w = z # zs" using k(2) by (cases w) auto
  have "r @ rest = [] \<or> \<not> is_word (hd (r @ rest))"
    using key_tail_ends[OF k(4)] assms(2,4) by (auto simp: hd_append dest: word_not_ws)
  then have "dropWhile is_word (zs @ (r @ rest)) = r @ rest"
    using k(3) w by (intro dropWhile_run) simp_all
  then have 1: "first (Plus (Chr is_word)) (k @ rest) c = Some (r @ rest, c)"
    using k(1,3) w by (simp add: first_Plus_Chr)
  show ?thesis unfolding labelPattern_def
    by (rule first_Seq[OF 1]) (simp add: first_tail[OF k(4) assms(2,3,4)])
qed

section \<open>Extracting again from the serialised table\<close>

lemma first_Group_None: "first a s c = None \<Longrightarrow> first (Group n a) s c = None"
  by (auto simp: first_def split: list.splits)

lemma is_value_chars: "is_value v \<Longrightarrow> x \<in> set v \<Longrightarrow> \<not> is_delim x \<and> x \<noteq> 59 \<and> x \<noteq> 10"
  by (auto simp: is_value_def is_delim_def)

lemma join_values:
  "vs \<noteq> [] \<Longrightarrow> \<forall>v\<in>set vs. is_value v \<Longrightarrow>
   join [44, 32] vs \<noteq> [] \<and> \<not> is_ws (hd (join [44, 32] vs)) \<and> \<not> is_ws (last (join [44, 32] vs))
   \<and> (\<forall>x\<in>set (join [44, 32] vs). x \<noteq> 59 \<and> x \<noteq> 10)"
proof (induction vs)
  case Nil
  then show ?case by simp
next
  case (Cons v vs)
  have iv: "is_value v" using Cons.prems(2) by simp
  then have v: "v \<noteq> []" "\<not> is_ws (hd v)" "\<not> is_ws (last v)" by (simp_all add: is_value_def)
  have vc: "\<forall>x\<in>set v. x \<noteq> 59 \<and> x \<noteq> 10" using is_value_chars[OF iv] by blast
  show ?case
  proof (cases "vs = []")
    case True
    then show ?thesis using v vc by simp
  next
    case False
    let ?J = "join [44, 32] vs"
    have rest: "\<forall>v\<in>set vs. is_value v" using Cons.prems(2) by simp
    from Cons.IH[OF False rest] have IH: "?J \<noteq> []" "\<not> is_ws (last ?J)"
      "\<forall>x\<in>set ?J. x \<noteq> 59 \<and> x \<noteq> 10" by blast+
    have j: "join [44, 32] (v # vs) = v @ [44, 32] @ ?J"
      using False by (simp add: join_Cons)
    have 1: "v @ [44, 32] @ ?J \<noteq> []" using v(1) by simp
    have 2: "hd (v @ [44, 32] @ ?J) = hd v" using v(1) by simp
    have 3: "last (v @ [44, 32] @ ?J) = last ?J" using IH(1) by simp
    have 4: "\<forall>x\<in>set (v @ [44, 32] @ ?J). x \<noteq> 59 \<and> x \<noteq> 10"
    proof
      fix x assume "x \<in> set (v @ [44, 32] @ ?J)"
      then consider "x \<in> set v" | "x = 44" | "x = 32" | "x \<in> set ?J" by auto
      then show "x \<noteq> 59 \<and> x \<noteq> 10" using vc IH(3) by cases simp_all
    qed
    show ?thesis unfolding j 2 3 using 1 v(2) IH(2) 4 by (intro conjI)
  qed
qed

text \<open>The match of \<open>colonPattern\<close> at the start of a serialised line.\<close>

lemma match_line:
  assumes k: "is_key k" and vs: "vs \<noteq> []" "\<forall>v\<in>set vs. is_value v"
    and tail: "tail = [] \<or> hd tail = 10"
  shows "match_here colonPattern (k @ [58, 32] @ join [44, 32] vs @ tail) =
           Some (tail, [(2, join [44, 32] vs), (1, k)])"
proof -
  let ?V = "join [44, 32] vs"
  let ?r1 = "58 # 32 # ?V @ tail"
  from join_values[OF vs] have V: "?V \<noteq> []" "\<not> is_ws (hd ?V)"
    "\<forall>x\<in>set ?V. x \<noteq> 59 \<and> x \<noteq> 10" by simp_all
  obtain z zs where Vz: "?V = z # zs" using V(1) by (cases ?V) auto
  have n58: "\<not> is_ws 58" "\<not> is_word 58" "is_ws 32" by (simp_all add: is_ws_def is_word_def)
  have a: "first labelPattern (k @ ?r1) [] = Some (?r1, [])"
    using n58 by (intro first_label[OF k]) simp_all
  have b: "first (Group 1 labelPattern) (k @ ?r1) [] = Some (?r1, [(1, k)])"
    using first_Group[OF a, of 1] by simp
  have c: "first (Star (Chr is_ws)) ?r1 [(1, k)] = Some (?r1, [(1, k)])"
    using n58 by (simp add: first_Star_Chr)
  have d: "first (Lit 58) ?r1 [(1, k)] = Some (32 # ?V @ tail, [(1, k)])"
    by (simp add: Lit_def first_Chr)
  have e: "first (Star (Chr is_ws)) (32 # ?V @ tail) [(1, k)] = Some (?V @ tail, [(1, k)])"
    using n58 V(2) Vz by (simp add: first_Star_Chr)
  have "dropWhile (\<lambda>c. c \<noteq> 59 \<and> c \<noteq> 10) (zs @ tail) = tail"
    using V(3) Vz tail by (intro dropWhile_run) auto
  then have f: "first spanPattern (?V @ tail) [(1, k)] = Some (tail, [(1, k)])"
    using V(3) Vz by (simp add: spanPattern_def first_Plus_Chr)
  have g: "first (Group 2 spanPattern) (?V @ tail) [(1, k)] = Some (tail, [(2, ?V), (1, k)])"
    using first_Group[OF f, of 2] by simp
  have s4: "first (Seq (Star (Chr is_ws)) (Group 2 spanPattern)) (32 # ?V @ tail) [(1, k)] =
              Some (tail, [(2, ?V), (1, k)])"
    by (rule first_Seq[OF e]) (simp only: fst_conv snd_conv g)
  have s3: "first (Seq (Lit 58) (Seq (Star (Chr is_ws)) (Group 2 spanPattern))) ?r1 [(1, k)] =
              Some (tail, [(2, ?V), (1, k)])"
    by (rule first_Seq[OF d]) (simp only: fst_conv snd_conv s4)
  have s2: "first (Seq (Star (Chr is_ws)) (Seq (Lit 58) (Seq (Star (Chr is_ws)) (Group 2 spanPattern))))
              ?r1 [(1, k)] = Some (tail, [(2, ?V), (1, k)])"
    by (rule first_Seq[OF c]) (simp only: fst_conv snd_conv s3)
  have "first colonPattern (k @ ?r1) [] = Some (tail, [(2, ?V), (1, k)])"
    unfolding colonPattern_parts by (rule first_Seq[OF b]) (simp only: fst_conv snd_conv s2)
  then show ?thesis by (simp add: match_here_first)
qed

lemma exec_line:
  assumes "is_key k" and "vs \<noteq> []" "\<forall>v\<in>set vs. is_value v" and "tail = [] \<or> hd tail = 10"
  shows "exec colonPattern (serializeLine (k, vs) @ tail) =
           Some (serializeLine (k, vs) @ tail, tail, [(2, join [44, 32] vs), (1, k)])"
proof -
  have "serializeLine (k, vs) @ tail = k @ [58, 32] @ join [44, 32] vs @ tail"
    by (simp add: serializeLine_def)
  moreover obtain x xs where "k @ [58, 32] @ join [44, 32] vs @ tail = x # xs"
    by (cases "k @ [58, 32] @ join [44, 32] vs @ tail") auto
  ultimately show ?thesis using match_line[OF assms] by simp
qed

lemma match_newline: "match_here colonPattern (10 # s) = None"
proof -
  have "first (Plus (Chr is_word)) (10 # s) [] = None" by (simp add: first_Plus_Chr is_word_def)
  then have "first labelPattern (10 # s) [] = None" unfolding labelPattern_def by (rule first_Seq_None)
  then have "first (Group 1 labelPattern) (10 # s) [] = None" by (rule first_Group_None)
  then show ?thesis unfolding colonPattern_parts match_here_first by (rule first_Seq_None)
qed

lemma loop_skip_newline: "extractFields_loop (10 # s) = extractFields_loop s"
proof -
  have e: "exec colonPattern (10 # s) = exec colonPattern s" by (simp add: match_newline)
  show ?thesis
  proof (cases "exec colonPattern s")
    case None
    then show ?thesis using e by (simp add: extractFields_loop_None)
  next
    case (Some a)
    obtain m s' c where "a = (m, s', c)" by (cases a)
    with Some e have "exec colonPattern s = Some (m, s', c)" "exec colonPattern (10 # s) = Some (m, s', c)"
      by simp_all
    then show ?thesis by (simp only: extractFields_loop_Some)
  qed
qed

text \<open>Splitting the values of a serialised line gives the values back.\<close>

lemma split_go_Chr_run:
  "\<forall>x\<in>set v. \<not> P x \<Longrightarrow> split_go (Chr P) cur (v @ s) = split_go (Chr P) (rev v @ cur) s"
proof (induction v arbitrary: cur)
  case Nil
  show ?case by simp
next
  case (Cons y v)
  then have "split_go (Chr P) cur ((y # v) @ s) = split_go (Chr P) (y # cur) (v @ s)"
    unfolding append_Cons split_go_Chr by simp
  also have "\<dots> = split_go (Chr P) (rev v @ y # cur) s" using Cons by simp
  finally show ?case by simp
qed

lemma split_join:
  "\<forall>v\<in>set (v0 # vs). \<forall>x\<in>set v. \<not> is_delim x \<Longrightarrow>
   split_go (Chr is_delim) cur (join [44, 32] (v0 # vs)) = (rev cur @ v0) # map (\<lambda>v. 32 # v) vs"
proof (induction vs arbitrary: v0 cur)
  case Nil
  then have "split_go (Chr is_delim) cur (v0 @ []) = split_go (Chr is_delim) (rev v0 @ cur) []"
    by (intro split_go_Chr_run) simp
  then show ?case by simp
next
  case (Cons v1 vs)
  have d: "is_delim 44" "\<not> is_delim 32" by (simp_all add: is_delim_def)
  have "split_go (Chr is_delim) cur (v0 @ 44 # 32 # join [44, 32] (v1 # vs)) =
        split_go (Chr is_delim) (rev v0 @ cur) (44 # 32 # join [44, 32] (v1 # vs))"
    using Cons.prems by (intro split_go_Chr_run) simp
  also have "\<dots> = (rev cur @ v0) # split_go (Chr is_delim) [32] (join [44, 32] (v1 # vs))"
    unfolding split_go_Chr using d by simp
  also have "split_go (Chr is_delim) [32] (join [44, 32] (v1 # vs)) = (rev [32] @ v1) # map (\<lambda>v. 32 # v) vs"
    using Cons.prems by (intro Cons.IH) simp
  finally show ?case by simp
qed

lemma trim_space: "trim (32 # v) = trim v"
  by (simp add: trim_def is_ws_def)

lemma is_value_trim: "is_value v \<Longrightarrow> trim v = v"
  by (intro trim_id) (simp add: is_value_def)

lemma splitValues_join:
  assumes "vs \<noteq> []" and "\<forall>v\<in>set vs. is_value v"
    and "length vs = 1 \<longrightarrow> split_rx conjPattern (hd vs) = [hd vs]"
  shows "splitValues (trim (join [44, 32] vs)) = vs"
proof -
  let ?V = "join [44, 32] vs"
  have tV: "trim ?V = ?V" using join_values[OF assms(1,2)] by (intro trim_id) simp
  obtain v0 vs' where vs: "vs = v0 # vs'" using assms(1) by (cases vs) auto
  have nd: "\<forall>v\<in>set (v0 # vs'). \<forall>x\<in>set v. \<not> is_delim x"
    using assms(2) vs is_value_chars by blast
  show ?thesis
  proof (cases "vs' = []")
    case True
    then have V: "?V = v0" using vs by simp
    have v0: "is_value v0" using assms(2) vs by simp
    have "\<not> (\<exists>c\<in>set v0. is_delim c)" using nd by simp
    moreover have "split_rx conjPattern v0 = [v0]" using assms(3) vs True by simp
    ultimately show ?thesis using v0 vs True
      by (simp add: tV V splitValues_cases is_value_trim) (simp add: is_value_def)
  next
    case False
    then have "44 \<in> set ?V" using vs by (cases vs') simp_all
    then have hd: "\<exists>c\<in>set ?V. is_delim c" by (auto simp: is_delim_def)
    have ne: "?V \<noteq> []" using join_values[OF assms(1,2)] by simp
    have "split_rx delimPattern ?V = v0 # map (\<lambda>v. 32 # v) vs'"
      using split_join[OF nd, of "[]"] ne vs by (simp add: split_rx_def delimPattern_is_delim)
    moreover have "map trim (v0 # map (\<lambda>v. 32 # v) vs') = vs"
      using assms(2) vs by (simp add: trim_space is_value_trim comp_def map_idI)
    moreover have "filter (\<lambda>v. length v > 0) vs = vs"
      using assms(2) by (auto simp: is_value_def filter_id_conv)
    ultimately show ?thesis using hd by (simp add: tV splitValues_cases)
  qed
qed

lemma serialize_Cons:
  "serialize (e # m) = serializeLine e @ (if m = [] then [] else 10 # serialize m)"
  by (simp add: serialize_def join_Cons)

lemma extractFields_loop_Nil: "extractFields_loop [] = []"
  by (rule extractFields_loop_None[OF exec_colonPattern_Nil])

lemma reextract_loop:
  assumes "\<forall>e\<in>set m. good_entry e"
    and "\<forall>e\<in>set m. length (snd e) = 1 \<longrightarrow> split_rx conjPattern (hd (snd e)) = [hd (snd e)]"
  shows "extractFields_loop (serialize m) =
           map (\<lambda>e. \<lparr>key = fst e, vals = snd e, rawText = serializeLine e\<rparr>) m"
  using assms
proof (induction m)
  case Nil
  show ?case by (simp add: serialize_def extractFields_loop_Nil)
next
  case (Cons e m)
  obtain k vs where e: "e = (k, vs)" by (cases e)
  have g: "is_key k" "vs \<noteq> []" "\<forall>v\<in>set vs. is_value v"
    using Cons.prems(1) e by (simp_all add: good_entry_def)
  have h: "length vs = 1 \<longrightarrow> split_rx conjPattern (hd vs) = [hd vs]"
    using Cons.prems(2) e by simp
  let ?tail = "if m = [] then [] else 10 # serialize m"
  have t: "?tail = [] \<or> hd ?tail = 10" by simp
  have ex: "exec colonPattern (serializeLine (k, vs) @ ?tail) =
             Some (serializeLine (k, vs) @ ?tail, ?tail, [(2, join [44, 32] vs), (1, k)])"
    using g t by (rule exec_line)
  have sv: "splitValues (trim (join [44, 32] vs)) = vs"
    using g(2,3) h by (rule splitValues_join)
  have grp: "group [(2, join [44, 32] vs), (1, k)] 1 = k"
    "group [(2, join [44, 32] vs), (1, k)] 2 = join [44, 32] vs"
    by (simp_all add: group_def)
  have tail: "extractFields_loop ?tail =
                map (\<lambda>e. \<lparr>key = fst e, vals = snd e, rawText = serializeLine e\<rparr>) m"
  proof (cases "m = []")
    case True
    then show ?thesis by (simp add: extractFields_loop_Nil)
  next
    case False
    have "extractFields_loop (serialize m) =
            map (\<lambda>e. \<lparr>key = fst e, vals = snd e, rawText = serializeLine e\<rparr>) m"
      using Cons.prems by (intro Cons.IH) simp_all
    with False show ?thesis by (simp add: loop_skip_newline)
  qed
  have "extractFields_loop (serialize (e # m)) =
          \<lparr>key = k, vals = vs, rawText = serializeLine (k, vs)\<rparr> # extractFields_loop ?tail"
    unfolding serialize_Cons e extractFields_loop_Some[OF ex] grp sv is_key_trim[OF g(1)]
    using g(2) by simp
  then show ?case by (simp add: tail e)
qed

text \<open>
  C4, as the code has it. Let \<open>m\<close> be the merged table of a text, and let no key of \<open>m\<close>
  have a single value that the split on \<open>and\<close> and \<open>or\<close> would cut. Then extracting and
  merging again from the serialised table gives \<open>m\<close> itself: the same keys, and for each
  key the same values.
\<close>

theorem reextraction_idempotent:
  assumes "m = mergeFields (extractFields t)"
    and "\<forall>e\<in>set m. length (snd e) = 1 \<longrightarrow> split_rx conjPattern (hd (snd e)) = [hd (snd e)]"
  shows "mergeFields (extractFields (serialize m)) = m
         \<and> set (map fst (mergeFields (extractFields (serialize m)))) = set (map fst m)
         \<and> (\<forall>k. map_option set (map_of (mergeFields (extractFields (serialize m))) k) =
                  map_option set (map_of m k))"
proof -
  have good: "\<forall>e\<in>set m. good_entry e" and dist: "distinct (map fst m)"
    using merged_good[of t] assms(1) by simp_all
  have "extractFields (serialize m) =
          map (\<lambda>e. \<lparr>key = fst e, vals = snd e, rawText = serializeLine e\<rparr>) m"
    unfolding extractFields_def using good assms(2) by (rule reextract_loop)
  moreover have "foldl merge_field []
          (map (\<lambda>e. \<lparr>key = fst e, vals = snd e, rawText = serializeLine e\<rparr>) m) = [] @ m"
    using dist by (intro foldl_merge_distinct) simp
  ultimately have "mergeFields (extractFields (serialize m)) = m"
    by (simp add: mergeFields_def)
  then show ?thesis by simp
qed

definition statusText :: jsstring where
  "statusText = js ''Status: Active'' @ [10] @ js ''Country: India, US''"

lemma statusText_exec:
  "exec colonPattern statusText =
     Some (statusText, 10 # js ''Country: India, US'', [(2, js ''Active''), (1, js ''Status'')])"
  "exec colonPattern (10 # js ''Country: India, US'') =
     Some (js ''Country: India, US'', [], [(2, js ''India, US''), (1, js ''Country'')])"
  by (simp_all add: statusText_def colonPattern_def rx_eval)

lemma statusText_values:
  "splitValues (js ''Active'') = [js ''Active'']"
  "splitValues (js ''India, US'') = [js ''India'', js ''US'']"
  "split_rx conjPattern (js ''Active'') = [js ''Active'']"
  by (simp_all add: split_eval rx_eval)

lemma statusText_trim:
  "trim (js ''Active'') = js ''Active''" "trim (js ''India, US'') = js ''India, US''"
  "trim (js ''Status'') = js ''Status''" "trim (js ''Country'') = js ''Country''"
  by (simp_all add: rx_eval)

lemma statusText_merged:
  "mergeFields (extractFields statusText) =
     [(js ''Status'', [js ''Active'']), (js ''Country'', [js ''India'', js ''US''])]"
  unfolding extractFields_def
  by (simp add: extractFields_loop_Some[OF statusText_exec(1)]
        extractFields_loop_Some[OF statusText_exec(2)] extractFields_loop_Nil group_def
        statusText_trim statusText_values mergeFields_def merge_field_def)
     (simp add: js_def)

theorem reextraction_idempotent_witness:
  "mergeFields (extractFields statusText) =
     [(js ''Status'', [js ''Active'']), (js ''Country'', [js ''India'', js ''US''])]
   \<and> serialize [(js ''Status'', [js ''Active'']), (js ''Country'', [js ''India'', js ''US''])] =
       statusText
   \<and> mergeFields (extractFields
        (serialize [(js ''Status'', [js ''Active'']), (js ''Country'', [js ''India'', js ''US''])])) =
     [(js ''Status'', [js ''Active'']), (js ''Country'', [js ''India'', js ''US''])]"
proof -
  let ?m = "[(js ''Status'', [js ''Active'']), (js ''Country'', [js ''India'', js ''US''])]"
  have m: "?m = mergeFields (extractFields statusText)" by (simp only: statusText_merged)
  have h: "\<forall>e\<in>set ?m. length (snd e) = 1 \<longrightarrow> split_rx conjPattern (hd (snd e)) = [hd (snd e)]"
    by (simp add: statusText_values)
  have s: "serialize ?m = statusText"
    by (simp add: serialize_def serializeLine_def statusText_def js_def)
  from reextraction_idempotent[OF m h] s statusText_merged show ?thesis by simp
qed

lemma conj_example_exec2:
  "exec colonPattern (js ''k: a and b'') =
     Some (js ''k: a and b'', [], [(2, js ''a and b''), (1, js ''k'')])"
  by (simp add: colonPattern_def rx_eval)

lemma conj_example_trim2: "trim (js ''a and b'') = js ''a and b''"
  by (simp add: rx_eval)

text \<open>
  C4 as the claim states it fails on the text \<open>k: a and b,\<close>: its merged table has the one
  value \<open>a and b\<close> for \<open>k\<close>, which serialises to \<open>k: a and b\<close>; extracted again, that line
  gives the two values \<open>a\<close> and \<open>b\<close>.
\<close>

theorem reextraction_not_idempotent:
  "mergeFields (extractFields (js ''k: a and b,'')) = [(js ''k'', [js ''a and b''])]
   \<and> serialize [(js ''k'', [js ''a and b''])] = js ''k: a and b''
   \<and> mergeFields (extractFields (js ''k: a and b'')) = [(js ''k'', [js ''a'', js ''b''])]
   \<and> set [js ''a and b''] \<noteq> set [js ''a'', js ''b'']"
proof (intro conjI)
  show "mergeFields (extractFields (js ''k: a and b,'')) = [(js ''k'', [js ''a and b''])]"
    by (simp add: conj_example_fields mergeFields_def merge_field_def)
  show "serialize [(js ''k'', [js ''a and b''])] = js ''k: a and b''"
    by (simp add: serialize_def serializeLine_def js_def)
  show "mergeFields (extractFields (js ''k: a and b'')) = [(js ''k'', [js ''a'', js ''b''])]"
    unfolding extractFields_def
    by (simp add: extractFields_loop_Some[OF conj_example_exec2] extractFields_loop_Nil group_def
          conj_example_trim conj_example_trim2 conj_example_values mergeFields_def merge_field_def)
  show "set [js ''a and b''] \<noteq> set [js ''a'', js ''b'']"
    by (simp add: js_def)
qed

section \<open>Trimming a line does not change its cells\<close>

lemma first_Seq_Chr:
  "first (Seq (Chr P) b) s c = (case s of [] \<Rightarrow> None | x # xs \<Rightarrow> if P x then first b xs c else None)"
  by (simp add: first_def split: list.splits)

lemma first_Alt:
  "first (Alt a b) s c = (case first a s c of None \<Rightarrow> first b s c | Some m \<Rightarrow> Some m)"
  by (simp add: first_def split: list.splits)

lemma match_here_tableSep_Nil: "match_here tableSepPattern [] = None"
  by (simp add: match_here_first tableSepPattern_def Lit_def first_Alt first_Seq_Chr first_Plus_Chr)

lemma match_here_tableSep:
  "match_here tableSepPattern (x # xs) =
     (if is_ws x \<and> xs \<noteq> [] \<and> is_ws (hd xs) then Some (dropWhile is_ws xs, [])
      else if x = 9 then Some (xs, [])
      else None)"
proof -
  have tab: "is_ws 9" by (simp add: is_ws_def)
  have a: "first (Seq (Chr is_ws) (Plus (Chr is_ws))) (x # xs) [] =
             (if is_ws x \<and> xs \<noteq> [] \<and> is_ws (hd xs) then Some (dropWhile is_ws xs, []) else None)"
    by (cases xs) (simp_all add: first_Seq_Chr first_Plus_Chr)
  have b: "first (Plus (Lit 9)) (x # xs) [] =
             (if x = 9 then Some (dropWhile (\<lambda>c. c = 9) xs, []) else None)"
    by (simp add: Lit_def first_Plus_Chr)
  have c: "dropWhile (\<lambda>c. c = 9) xs = xs" if "\<not> (xs \<noteq> [] \<and> is_ws (hd xs))"
    using that tab by (cases xs) auto
  show ?thesis
    unfolding match_here_first tableSepPattern_def first_Alt a b
    using tab c by auto
qed

lemma consumes_tableSep: "consumes tableSepPattern"
  by (simp add: tableSepPattern_def Plus_def Lit_def)

lemma split_go_consumes:
  "consumes r \<Longrightarrow>
   split_go r cur (x # xs) =
     (case match_here r (x # xs) of
        None \<Rightarrow> split_go r (x # cur) xs
      | Some (s', c) \<Rightarrow> rev cur # split_go r [] s')"
  using match_here_consumes[of r "x # xs"]
  by (auto split: option.splits)

lemma split_go_cur:
  "consumes r \<Longrightarrow>
   split_go r [] s \<noteq> [] \<and>
   split_go r cur s = (rev cur @ hd (split_go r [] s)) # tl (split_go r [] s)"
proof (induction s arbitrary: cur)
  case Nil
  show ?case by simp
next
  case (Cons x xs)
  show ?case
  proof (cases "match_here r (x # xs)")
    case None
    have 1: "split_go r cur (x # xs) = split_go r (x # cur) xs"
      and 2: "split_go r [] (x # xs) = split_go r [x] xs"
      using None by (simp_all add: split_go_consumes[OF Cons.prems] del: split_go.simps)
    from Cons.IH[OF Cons.prems, of "x # cur"] Cons.IH[OF Cons.prems, of "[x]"]
    show ?thesis unfolding 1 2 by simp
  next
    case (Some a)
    obtain s' c where "a = (s', c)" by (cases a)
    with Some show ?thesis by (simp add: split_go_consumes[OF Cons.prems] del: split_go.simps)
  qed
qed

text \<open>The cells that remain of the pieces of a split.\<close>

definition cells_of :: "jsstring \<Rightarrow> jsstring \<Rightarrow> jsstring list" where
  "cells_of cur s = filter (\<lambda>cell. length cell > 0) (map trim (split_go tableSepPattern cur s))"

lemma splitTableRow_cells_of: "splitTableRow s = cells_of [] s"
  by (simp add: splitTableRow_def cells_of_def split_rx_def match_here_tableSep_Nil)

lemma trim_lead: "is_ws x \<Longrightarrow> trim (x # p) = trim p"
  by (simp add: trim_def)

lemma trim_trail: "is_ws x \<Longrightarrow> trim (p @ [x]) = trim p"
proof (cases "\<forall>y\<in>set p. is_ws y")
  case True
  assume "is_ws x"
  then have x: "is_ws x" .
  have a: "dropWhile is_ws p = []" using True by (simp add: dropWhile_eq_Nil_conv)
  have "dropWhile is_ws (p @ [x]) = dropWhile is_ws [x]" using True by (intro dropWhile_append2) simp
  then have b: "dropWhile is_ws (p @ [x]) = []" using x by simp
  show ?thesis unfolding trim_def a b by simp
next
  case False
  assume x: "is_ws x"
  from False obtain y where "y \<in> set p" "\<not> is_ws y" by blast
  then have "dropWhile is_ws (p @ [x]) = dropWhile is_ws p @ [x]"
    by (rule dropWhile_append1)
  then show ?thesis using x by (simp add: trim_def)
qed

lemma cells_of_Nil: "cells_of cur [] = filter (\<lambda>cell. length cell > 0) [trim (rev cur)]"
  by (simp add: cells_of_def)

lemma cells_of_match:
  "match_here tableSepPattern (x # xs) = Some (s', c) \<Longrightarrow>
   cells_of cur (x # xs) = filter (\<lambda>cell. length cell > 0) [trim (rev cur)] @ cells_of [] s'"
  by (simp add: cells_of_def split_go_consumes[OF consumes_tableSep] del: split_go.simps)

lemma cells_of_no_match:
  "match_here tableSepPattern (x # xs) = None \<Longrightarrow> cells_of cur (x # xs) = cells_of (x # cur) xs"
  by (simp add: cells_of_def split_go_consumes[OF consumes_tableSep] del: split_go.simps)

lemma trim_Nil: "trim [] = []"
  by (simp add: trim_def)

lemma cells_of_ws_cur: "is_ws y \<Longrightarrow> cells_of [y] s = cells_of [] s"
proof -
  assume y: "is_ws y"
  from split_go_cur[OF consumes_tableSep, of s "[y]"]
  obtain p ps where p: "split_go tableSepPattern [] s = p # ps"
    and q: "split_go tableSepPattern [y] s = (y # p) # ps"
    by (cases "split_go tableSepPattern [] s") auto
  show ?thesis by (simp add: cells_of_def p q trim_lead[OF y])
qed

lemma cells_of_lead: "cells_of [] (dropWhile is_ws s) = cells_of [] s"
proof (cases s)
  case Nil
  then show ?thesis by simp
next
  case (Cons y ys)
  show ?thesis
  proof (cases "is_ws y")
    case False
    then show ?thesis using Cons by simp
  next
    case True
    then have d: "dropWhile is_ws s = dropWhile is_ws ys" using Cons by simp
    consider "ys \<noteq> [] \<and> is_ws (hd ys)" | "\<not> (ys \<noteq> [] \<and> is_ws (hd ys))" "y = 9"
      | "\<not> (ys \<noteq> [] \<and> is_ws (hd ys))" "y \<noteq> 9" by blast
    then show ?thesis
    proof cases
      case 1
      then have "match_here tableSepPattern (y # ys) = Some (dropWhile is_ws ys, [])"
        using True by (simp add: match_here_tableSep)
      from cells_of_match[OF this, of "[]"] show ?thesis
        unfolding d Cons by (simp add: trim_Nil)
    next
      case 2
      then have "match_here tableSepPattern (y # ys) = Some (ys, [])"
        by (auto simp: match_here_tableSep)
      moreover have "dropWhile is_ws ys = ys" using 2(1) by (cases ys) auto
      ultimately show ?thesis using cells_of_match[of y ys ys "[]" "[]"]
        unfolding d Cons by (simp add: trim_Nil)
    next
      case 3
      then have "match_here tableSepPattern (y # ys) = None"
        by (auto simp: match_here_tableSep)
      moreover have "dropWhile is_ws ys = ys" using 3(1) by (cases ys) auto
      ultimately show ?thesis using cells_of_no_match[of y ys "[]"] cells_of_ws_cur[OF True, of ys]
        unfolding d Cons by simp
    qed
  qed
qed

lemma match_here_tableSep_snoc:
  assumes "ys \<noteq> []" and "is_ws x"
  shows "(match_here tableSepPattern (y # ys) = None \<and>
          match_here tableSepPattern (y # ys @ [x]) = None)
       \<or> (\<exists>t. t \<noteq> [] \<and> match_here tableSepPattern (y # ys) = Some (t, []) \<and>
               match_here tableSepPattern (y # ys @ [x]) = Some (t @ [x], []))
       \<or> (match_here tableSepPattern (y # ys) = Some ([], []) \<and>
          match_here tableSepPattern (y # ys @ [x]) = Some ([], []))"
proof -
  have h: "hd (ys @ [x]) = hd ys" "ys @ [x] \<noteq> []" using assms(1) by simp_all
  have tab: "is_ws 9" by (simp add: is_ws_def)
  consider "is_ws y \<and> is_ws (hd ys)" "\<forall>z\<in>set ys. is_ws z"
    | "is_ws y \<and> is_ws (hd ys)" "\<not> (\<forall>z\<in>set ys. is_ws z)"
    | "\<not> (is_ws y \<and> is_ws (hd ys))" "y = 9"
    | "\<not> (is_ws y \<and> is_ws (hd ys))" "y \<noteq> 9" by blast
  then show ?thesis
  proof cases
    case 1
    have a: "dropWhile is_ws ys = []" using 1(2) by (simp add: dropWhile_eq_Nil_conv)
    have "dropWhile is_ws (ys @ [x]) = dropWhile is_ws [x]" using 1(2) by (intro dropWhile_append2) simp
    then have b: "dropWhile is_ws (ys @ [x]) = []" using assms(2) by simp
    have "match_here tableSepPattern (y # ys) = Some ([], [])"
      "match_here tableSepPattern (y # ys @ [x]) = Some ([], [])"
      using 1(1) assms(1) h a b by (simp_all add: match_here_tableSep)
    then show ?thesis by simp
  next
    case 2
    from 2(2) obtain z where "z \<in> set ys" "\<not> is_ws z" by blast
    then have b: "dropWhile is_ws (ys @ [x]) = dropWhile is_ws ys @ [x]" by (rule dropWhile_append1)
    have a: "dropWhile is_ws ys \<noteq> []" using 2(2) by (simp add: dropWhile_eq_Nil_conv)
    have "match_here tableSepPattern (y # ys) = Some (dropWhile is_ws ys, [])"
      "match_here tableSepPattern (y # ys @ [x]) = Some (dropWhile is_ws ys @ [x], [])"
      using 2(1) assms(1) h b by (simp_all add: match_here_tableSep)
    with a show ?thesis by (intro disjI2 disjI1 exI[of _ "dropWhile is_ws ys"]) simp
  next
    case 3
    have "\<not> is_ws (hd ys)" using 3 tab by simp
    then have "match_here tableSepPattern (y # ys) = Some (ys, [])"
      "match_here tableSepPattern (y # ys @ [x]) = Some (ys @ [x], [])"
      using 3(2) h by (simp_all add: match_here_tableSep)
    with assms(1) show ?thesis by (intro disjI2 disjI1 exI[of _ ys]) simp
  next
    case 4
    then have "match_here tableSepPattern (y # ys) = None"
      "match_here tableSepPattern (y # ys @ [x]) = None"
      using h by (simp_all add: match_here_tableSep)
    then show ?thesis by simp
  qed
qed

lemma cells_of_single_ws:
  "is_ws y \<Longrightarrow> cells_of cur [y] = filter (\<lambda>cell. length cell > 0) [trim (rev cur)]"
proof (cases "y = 9")
  case True
  then have "match_here tableSepPattern [y] = Some ([], [])" by (simp add: match_here_tableSep)
  from cells_of_match[OF this, of cur] show ?thesis by (simp add: cells_of_Nil trim_Nil)
next
  case False
  assume y: "is_ws y"
  from False have "match_here tableSepPattern [y] = None" by (simp add: match_here_tableSep)
  from cells_of_no_match[OF this, of cur] show ?thesis
    by (simp add: cells_of_Nil trim_trail[OF y])
qed

lemma cells_of_snoc: "is_ws x \<Longrightarrow> cells_of cur (s @ [x]) = cells_of cur s"
proof (induction "length s" arbitrary: s cur rule: less_induct)
  case less
  note x = less.prems
  show ?case
  proof (cases s)
    case Nil
    have "cells_of cur ([] @ [x]) = cells_of cur []"
      unfolding append_Nil cells_of_single_ws[OF x] cells_of_Nil ..
    then show ?thesis unfolding Nil .
  next
    case (Cons y ys)
    show ?thesis
    proof (cases "ys = []")
      case True
      show ?thesis
      proof (cases "is_ws y")
        case ws: True
        have m: "match_here tableSepPattern (y # [x]) = Some ([], [])"
          using ws x by (simp add: match_here_tableSep)
        have "cells_of cur [y, x] = filter (\<lambda>cell. length cell > 0) [trim (rev cur)] @ cells_of [] []"
          by (rule cells_of_match[OF m])
        also have "cells_of [] [] = []" by (simp add: cells_of_Nil trim_Nil)
        finally have "cells_of cur [y, x] = cells_of cur [y]"
          unfolding cells_of_single_ws[OF ws] by simp
        then show ?thesis unfolding Cons True by simp
      next
        case False
        have "is_ws 9" by (simp add: is_ws_def)
        with False have "y \<noteq> 9" by auto
        with False have m: "match_here tableSepPattern (y # [x]) = None"
          "match_here tableSepPattern [y] = None"
          by (simp_all add: match_here_tableSep)
        have "cells_of cur [y, x] = cells_of (y # cur) [x]" by (rule cells_of_no_match[OF m(1)])
        also have "\<dots> = cells_of (y # cur) []"
          unfolding cells_of_single_ws[OF x] cells_of_Nil ..
        also have "\<dots> = cells_of cur [y]" by (rule cells_of_no_match[OF m(2), symmetric])
        finally show ?thesis unfolding Cons True by simp
      qed
    next
      case False
      have sx: "s @ [x] = y # ys @ [x]" unfolding Cons by simp
      from match_here_tableSep_snoc[OF False x, of y] show ?thesis
      proof (elim disjE conjE exE)
        assume 1: "match_here tableSepPattern (y # ys) = None"
          "match_here tableSepPattern (y # ys @ [x]) = None"
        have l: "length ys < length s" unfolding Cons by simp
        have "cells_of cur (y # ys @ [x]) = cells_of (y # cur) (ys @ [x])"
          by (rule cells_of_no_match[OF 1(2)])
        also have "\<dots> = cells_of (y # cur) ys" by (rule less.hyps[OF l x])
        also have "\<dots> = cells_of cur (y # ys)" by (rule cells_of_no_match[OF 1(1), symmetric])
        finally show ?thesis unfolding Cons by simp
      next
        fix t assume 2: "t \<noteq> []" "match_here tableSepPattern (y # ys) = Some (t, [])"
          "match_here tableSepPattern (y # ys @ [x]) = Some (t @ [x], [])"
        have "length t < length (y # ys)"
          using match_here_consumes[OF consumes_tableSep 2(2)] .
        then have l: "length t < length s" unfolding Cons .
        have "cells_of cur (y # ys @ [x]) =
                filter (\<lambda>cell. length cell > 0) [trim (rev cur)] @ cells_of [] (t @ [x])"
          by (rule cells_of_match[OF 2(3)])
        also have "cells_of [] (t @ [x]) = cells_of [] t" by (rule less.hyps[OF l x])
        also have "filter (\<lambda>cell. length cell > 0) [trim (rev cur)] @ cells_of [] t =
                   cells_of cur (y # ys)" by (rule cells_of_match[OF 2(2), symmetric])
        finally show ?thesis unfolding Cons by simp
      next
        assume 3: "match_here tableSepPattern (y # ys) = Some ([], [])"
          "match_here tableSepPattern (y # ys @ [x]) = Some ([], [])"
        have "cells_of cur (y # ys @ [x]) =
                filter (\<lambda>cell. length cell > 0) [trim (rev cur)] @ cells_of [] []"
          by (rule cells_of_match[OF 3(2)])
        also have "\<dots> = cells_of cur (y # ys)" by (rule cells_of_match[OF 3(1), symmetric])
        finally show ?thesis unfolding Cons by simp
      qed
    qed
  qed
qed

lemma cells_of_trail: "cells_of [] (rev (dropWhile is_ws (rev s))) = cells_of [] s"
proof (induction s rule: rev_induct)
  case Nil
  show ?case by simp
next
  case (snoc x xs)
  show ?case
  proof (cases "is_ws x")
    case True
    then show ?thesis using snoc cells_of_snoc[OF True, of "[]" xs] by simp
  next
    case False
    then show ?thesis by simp
  qed
qed

text \<open>
  The loop trims a line before it splits it; the cells are those of the line as it
  stands.
\<close>

lemma splitTableRow_trim: "splitTableRow (trim l) = splitTableRow l"
  unfolding splitTableRow_cells_of trim_def
  by (simp only: cells_of_trail cells_of_lead)

lemma cells_untrimmed: "cells l = splitTableRow l"
  by (simp add: cells_def splitTableRow_trim)

lemma is_row_untrimmed: "is_row l \<longleftrightarrow> length (splitTableRow l) \<ge> 2"
  by (simp add: is_row_def cells_untrimmed)

text \<open>
  C5. Let the lines of the text be \<open>pre @ grp @ post\<close>, where \<open>grp\<close> is a maximal group of
  consecutive lines that each split into two cells or more: every line of \<open>grp\<close> does,
  the line before the group (if any) does not, and the line after it (if any) does not.
  Then the tables of the text are the tables of the lines before the group, then exactly
  one table for the group when it has two lines or more and none when it has one, then
  the tables of the lines after it; this holds as well when the group ends the text
  (\<open>post = []\<close>). The table of a group of two lines or more has at least one row.
\<close>

theorem extractTables_group:
  assumes "split_chr 10 text = pre @ grp @ post"
    and "grp \<noteq> []"
    and "\<forall>l\<in>set grp. length (splitTableRow l) \<ge> 2"
    and "pre = [] \<or> length (splitTableRow (last pre)) < 2"
    and "post = [] \<or> length (splitTableRow (hd post)) < 2"
  shows "extractTables text =
           extractTables_lines pre
           @ (if length grp \<ge> 2 then [closeTable (map splitTableRow grp)] else [])
           @ extractTables_lines post
         \<and> (length grp \<ge> 2 \<longrightarrow> length (rows (closeTable (map splitTableRow grp))) \<ge> 1)"
proof -
  have g: "\<forall>l\<in>set grp. is_row l" using assms(3) by (simp add: is_row_untrimmed)
  have p: "pre = [] \<or> \<not> is_row (last pre)" using assms(4) by (auto simp: is_row_untrimmed)
  have q: "post = [] \<or> \<not> is_row (hd post)" using assms(5) by (auto simp: is_row_untrimmed)
  have c: "map cells grp = map splitTableRow grp" by (simp add: cells_untrimmed)
  from extractTables_group_trimmed[OF assms(1,2) g p q] show ?thesis unfolding c .
qed

theorem extractTables_group_witness:
  "extractTables (js ''Overview'' @ [10] @ js ''Part  Qty'' @ [10] @ js ''Bolt  40'') =
     [\<lparr>headers = Some [js ''Part'', js ''Qty''], rows = [[js ''Bolt'', js ''40'']]\<rparr>]
   \<and> extractTables (js ''Overview'' @ [10] @ js ''Part  Qty'' @ [10] @ js ''Done'') = []"
proof
  have c: "splitTableRow (js ''Overview'') = [js ''Overview'']"
    "splitTableRow (js ''Part  Qty'') = [js ''Part'', js ''Qty'']"
    "splitTableRow (js ''Bolt  40'') = [js ''Bolt'', js ''40'']"
    "splitTableRow (js ''Done'') = [js ''Done'']"
    using table_example_cells by (simp_all only: cells_untrimmed)
  have l: "split_chr 10 (js ''Overview'' @ [10] @ js ''Part  Qty'' @ [10] @ js ''Bolt  40'') =
             [js ''Overview''] @ [js ''Part  Qty'', js ''Bolt  40''] @ []"
    by (simp add: js_def)
  have g: "\<forall>l\<in>set [js ''Part  Qty'', js ''Bolt  40'']. length (splitTableRow l) \<ge> 2"
    by (simp add: c)
  have p: "[js ''Overview''] = [] \<or> length (splitTableRow (last [js ''Overview''])) < 2"
    by (simp add: c)
  from extractTables_group[OF l _ g p]
  show "extractTables (js ''Overview'' @ [10] @ js ''Part  Qty'' @ [10] @ js ''Bolt  40'') =
     [\<lparr>headers = Some [js ''Part'', js ''Qty''], rows = [[js ''Bolt'', js ''40'']]\<rparr>]"
    by (simp add: table_example_single_lines c table_example_close)
next
  have c: "splitTableRow (js ''Overview'') = [js ''Overview'']"
    "splitTableRow (js ''Part  Qty'') = [js ''Part'', js ''Qty'']"
    "splitTableRow (js ''Done'') = [js ''Done'']"
    using table_example_cells by (simp_all only: cells_untrimmed)
  have l: "split_chr 10 (js ''Overview'' @ [10] @ js ''Part  Qty'' @ [10] @ js ''Done'') =
             [js ''Overview''] @ [js ''Part  Qty''] @ [js ''Done'']"
    by (simp add: js_def)
  have g: "\<forall>l\<in>set [js ''Part  Qty'']. length (splitTableRow l) \<ge> 2"
    by (simp add: c)
  have p: "[js ''Overview''] = [] \<or> length (splitTableRow (last [js ''Overview''])) < 2"
    by (simp add: c)
  have q: "[js ''Done''] = [] \<or> length (splitTableRow (hd [js ''Done''])) < 2"
    by (simp add: c)
  from extractTables_group[OF l _ g p q]
  show "extractTables (js ''Overview'' @ [10] @ js ''Part  Qty'' @ [10] @ js ''Done'') = []"
    by (simp add: table_example_single_lines)
qed

end
